theory Spec2Isabelle
  imports
    Main
    "HOL-Library.Word"
    "HOL-Library.Multiset"
    "HOL-Library.Char_ord"
    "HOL-Library.List_Lexorder"
    "HOL-Library.While_Combinator"
begin

section \<open>rosbag: the bag container of 130s/ros (src/rosbag.cpp, rosbag/rosbag.h)\<close>

text \<open>
  A shallow embedding of \<^verbatim>\<open>rosbag::Bag\<close>, \<^verbatim>\<open>rosbag::MessageInstance\<close> and the merge view
  of \<^verbatim>\<open>Bag::getViewByTopic\<close>. Member names lose the trailing underscore of the source
  (\<^verbatim>\<open>record_pos_\<close> is \<open>record_pos\<close>); \<^verbatim>\<open>MsgInfo::datatype\<close> is \<open>data_type\<close>. Byte strings
  (\<^verbatim>\<open>std::string\<close>, \<^verbatim>\<open>char*\<close> buffers, file contents) are \<open>string\<close>, one \<open>char\<close> per byte.
\<close>

subsection \<open>Bytes and little-endian integers\<close>

text \<open>
  The source copies integers to and from the file as raw memory
  (\<^verbatim>\<open>writefil((char*)&header_len, 4)\<close>, \<^verbatim>\<open>memcpy(&count, ..., 4)\<close>): little-endian on the hosts
  the format was defined on.
\<close>

fun le_bytes :: "nat \<Rightarrow> nat \<Rightarrow> string" where
  "le_bytes 0 v = []"
| "le_bytes (Suc n) v = char_of (v mod 256) # le_bytes n (v div 256)"

fun le_nat :: "string \<Rightarrow> nat" where
  "le_nat [] = 0"
| "le_nat (c # cs) = of_char c + 256 * le_nat cs"

definition u8_bytes :: "8 word \<Rightarrow> string" where
  "u8_bytes w = le_bytes 1 (unat w)"

definition u32_bytes :: "32 word \<Rightarrow> string" where
  "u32_bytes w = le_bytes 4 (unat w)"

definition u64_bytes :: "64 word \<Rightarrow> string" where
  "u64_bytes w = le_bytes 8 (unat w)"

definition bytes_u8 :: "string \<Rightarrow> 8 word" where
  "bytes_u8 s = word_of_nat (le_nat s)"

definition bytes_u32 :: "string \<Rightarrow> 32 word" where
  "bytes_u32 s = word_of_nat (le_nat s)"

definition bytes_u64 :: "string \<Rightarrow> 64 word" where
  "bytes_u64 s = word_of_nat (le_nat s)"

subsection \<open>Data model\<close>

text \<open>
  \<^verbatim>\<open>std::map<std::string, V>\<close>: an association list kept in key order (the order in which
  the source's \<^verbatim>\<open>for (i = m.begin(); i != m.end(); i++)\<close> visits it). \<open>map_of m k\<close> is
  \<^verbatim>\<open>m.find(k)\<close>, with \<open>None\<close> for \<^verbatim>\<open>m.end()\<close>; \<open>map_assign k v m\<close> is \<^verbatim>\<open>m[k] = v\<close>.
\<close>

type_synonym 'v std_map = "(string \<times> 'v) list"

fun map_assign :: "string \<Rightarrow> 'v \<Rightarrow> 'v std_map \<Rightarrow> 'v std_map" where
  "map_assign k v [] = [(k, v)]"
| "map_assign k v ((k', v') # m) =
     (if k = k' then (k, v) # m
      else if k < k' then (k, v) # (k', v') # m
      else (k', v') # map_assign k v m)"

type_synonym M_string = "string std_map"

text \<open>
  Modelled from the spec: \<^verbatim>\<open>ros::Time\<close> (ros/time.h is not among the sources). A timestamp
  is the pair of unsigned 32-bit fields \<^verbatim>\<open>sec\<close>, \<^verbatim>\<open>nsec\<close> that the source writes as 4 bytes
  each; \<^verbatim>\<open>operator<\<close> compares \<^verbatim>\<open>sec\<close>, then \<^verbatim>\<open>nsec\<close>.
\<close>

record Time =
  sec :: "32 word"
  nsec :: "32 word"

definition Time_less :: "Time \<Rightarrow> Time \<Rightarrow> bool" where
  "Time_less a b = (sec a < sec b \<or> (sec a = sec b \<and> nsec a < nsec b))"

definition Time_le :: "Time \<Rightarrow> Time \<Rightarrow> bool" where
  "Time_le a b = (\<not> Time_less b a)"

text \<open>\<^verbatim>\<open>struct MsgInfo\<close> and \<^verbatim>\<open>struct IndexEntry\<close> (rosbag.h).\<close>

record MsgInfo =
  topic :: string
  msg_def :: string
  md5sum :: string
  data_type :: string

record IndexEntry =
  time :: Time
  pos :: "64 word"

text \<open>
  What stops a run of the source other than a return: a failed \<^verbatim>\<open>assert\<close> or \<^verbatim>\<open>ROS_ASSERT\<close>
  (the process aborts), a read or write outside a vector or buffer (undefined in C++), a
  loop that never ends, and the exception rosbag.h documents for \<^verbatim>\<open>write\<close>.
\<close>

datatype error = AssertFailed | OutOfRange | Diverges | BagIOException

subsection \<open>The view: \<^verbatim>\<open>IndexEntryCompare\<close>, the binary searches, the merge queue\<close>







text \<open>
  Modelled from the spec: \<^verbatim>\<open>MergeHelper\<close> and \<^verbatim>\<open>MergeQueue\<close>, which rosbag.cpp uses and
  rosbag.h does not declare. A helper is the triple the source constructs,
  \<^verbatim>\<open>MergeHelper(iter, end, msg_info)\<close>: two iterators into one topic's index vector and that
  topic's \<^verbatim>\<open>MsgInfo\<close>. An iterator is the vector it points into (\<open>vec\<close>, unchanged while a
  view is read) and an offset; dereferencing at or past the vector's length is undefined
  in C++ and is the error \<open>OutOfRange\<close> here. The queue is the spec's min-heap keyed on
  \<^verbatim>\<open>iter->time\<close>: the list of helpers in ascending order of that key, the top first; among
  equal keys the helper pushed earlier stays in front (the spec leaves the order of ties
  open). As in a heap, pushing onto an empty queue compares nothing.
\<close>

record MergeHelper =
  vec :: "IndexEntry list"
  iter :: nat
  end_iter :: nat
  msg_info :: MsgInfo

type_synonym MergeQueue = "MergeHelper list"

definition deref :: "MergeHelper \<Rightarrow> error + IndexEntry" where
  "deref h = (if iter h < length (vec h) then Inr (vec h ! iter h) else Inl OutOfRange)"

fun queue_push :: "MergeHelper \<Rightarrow> MergeQueue \<Rightarrow> error + MergeQueue" where
  "queue_push h [] = Inr [h]"
| "queue_push h (x # q) =
     (case deref h of
        Inl e \<Rightarrow> Inl e
      | Inr a \<Rightarrow>
          (case deref x of
             Inl e \<Rightarrow> Inl e
           | Inr b \<Rightarrow>
               if Time_less (time a) (time b) then Inr (h # x # q)
               else (case queue_push h q of Inl e \<Rightarrow> Inl e | Inr q' \<Rightarrow> Inr (x # q'))))"

text \<open>\<^verbatim>\<open>class MessageInstance\<close>: the \<^verbatim>\<open>MsgInfo\<close> and the \<^verbatim>\<open>IndexEntry\<close> it points at.\<close>

record MessageInstance =
  info :: MsgInfo
  index :: IndexEntry

definition getTopic :: "MessageInstance \<Rightarrow> string" where
  "getTopic m = topic (info m)"

definition getMd5sum :: "MessageInstance \<Rightarrow> string" where
  "getMd5sum m = md5sum (info m)"

definition getTime :: "MessageInstance \<Rightarrow> Time" where
  "getTime m = time (index m)"




text \<open>
  \<^verbatim>\<open>View::iterator\<close>: \<^verbatim>\<open>dereference\<close> builds the instance of the top helper; \<^verbatim>\<open>increment\<close>
  pops the top, advances its iterator and pushes it back unless it reached \<^verbatim>\<open>end\<close>.
  Both are only called on a non-empty queue (\<^verbatim>\<open>it != view.end()\<close>).
\<close>

definition dereference :: "MergeQueue \<Rightarrow> error + MessageInstance" where
  "dereference q =
     (case q of
        [] \<Rightarrow> Inl OutOfRange
      | t # rest \<Rightarrow>
          (case deref t of
             Inl e \<Rightarrow> Inl e
           | Inr ie \<Rightarrow> Inr \<lparr>info = msg_info t, index = ie\<rparr>))"

definition increment :: "MergeQueue \<Rightarrow> error + MergeQueue" where
  "increment q =
     (case q of
        [] \<Rightarrow> Inl OutOfRange
      | t # rest \<Rightarrow>
          (let t' = t\<lparr>iter := iter t + 1\<rparr> in
           if iter t' \<noteq> end_iter t' then queue_push t' rest else Inr rest))"

text \<open>
  Reading a view from \<^verbatim>\<open>begin()\<close> to \<^verbatim>\<open>end()\<close>, as the loop of \<^verbatim>\<open>Bag::getMessageListByTopic\<close>
  does on the queue itself: while the queue is not empty, take the instance of the top and
  step. The result is the list of instances yielded, and the error that cut the run short,
  if one did. Every step reads the top helper inside its vector and moves it forward, so
  the offsets left to the vectors' ends shrink and the loop ends.
\<close>

lemma queue_push_Cons:
  "queue_push h (x # q) = Inr q' \<Longrightarrow>
     (q' = h # x # q) \<or> (\<exists>q''. queue_push h q = Inr q'' \<and> q' = x # q'')"
  by (simp split: sum.splits if_splits)

lemma queue_push_mset: "queue_push h q = Inr q' \<Longrightarrow> mset q' = add_mset h (mset q)"
proof (induction q arbitrary: q')
  case Nil
  then show ?case by simp
next
  case (Cons x q)
  from queue_push_Cons[OF Cons.prems] show ?case
  proof
    assume "q' = h # x # q" then show ?thesis by simp
  next
    assume "\<exists>q''. queue_push h q = Inr q'' \<and> q' = x # q''"
    then obtain q'' where "queue_push h q = Inr q''" "q' = x # q''" by blast
    with Cons.IH[of q''] show ?thesis by simp
  qed
qed

definition queue_measure :: "MergeQueue \<Rightarrow> nat" where
  "queue_measure q = sum_list (map (\<lambda>h. Suc (length (vec h)) - iter h) q)"

lemma queue_measure_mset: "mset q = mset q' \<Longrightarrow> queue_measure q = queue_measure q'"
proof -
  assume "mset q = mset q'"
  then have "mset (map (\<lambda>h. Suc (length (vec h)) - iter h) q) =
             mset (map (\<lambda>h. Suc (length (vec h)) - iter h) q')"
    by simp
  then have "sum_mset (mset (map (\<lambda>h. Suc (length (vec h)) - iter h) q)) =
             sum_mset (mset (map (\<lambda>h. Suc (length (vec h)) - iter h) q'))"
    by simp
  then show ?thesis
    unfolding queue_measure_def sum_mset_sum_list .
qed

lemma increment_measure:
  assumes "dereference q = Inr m" "increment q = Inr q'"
  shows "queue_measure q' < queue_measure q"
proof (cases q)
  case Nil
  with assms show ?thesis by (simp add: dereference_def)
next
  case (Cons t rest)
  from assms(1) Cons have lt: "iter t < length (vec t)"
    by (auto simp: dereference_def deref_def split: if_splits)
  show ?thesis
  proof (cases "Suc (iter t) = end_iter t")
    case True
    with assms(2) Cons have "q' = rest" by (simp add: increment_def)
    with Cons lt show ?thesis by (simp add: queue_measure_def)
  next
    case False
    with assms(2) Cons have "queue_push (t\<lparr>iter := Suc (iter t)\<rparr>) rest = Inr q'"
      by (simp add: increment_def)
    then have "mset q' = mset (t\<lparr>iter := Suc (iter t)\<rparr> # rest)"
      by (simp add: queue_push_mset)
    then have "queue_measure q' = queue_measure (t\<lparr>iter := Suc (iter t)\<rparr> # rest)"
      by (rule queue_measure_mset)
    with Cons lt show ?thesis by (simp add: queue_measure_def)
  qed
qed

function view_iterate :: "MergeQueue \<Rightarrow> MessageInstance list \<times> error option" where
  "view_iterate q =
     (if q = [] then ([], None)
      else
        (case dereference q of
           Inl e \<Rightarrow> ([], Some e)
         | Inr m \<Rightarrow>
             (case increment q of
                Inl e \<Rightarrow> ([m], Some e)
              | Inr q' \<Rightarrow> (case view_iterate q' of (ms, r) \<Rightarrow> (m # ms, r)))))"
  by pat_completeness auto
termination
  by (relation "measure queue_measure") (auto simp: increment_measure)

subsection \<open>Files and streams\<close>

text \<open>
  What the program sees of the world in one call: the files that can be opened for
  reading, with their bytes; the names that can be created for writing; the size a file can
  grow to before the device refuses a write (a full disk); the wall clock
  (\<^verbatim>\<open>ros::WallTime::now()\<close>, in nanoseconds); the answer of \<^verbatim>\<open>statvfs\<close> (\<^verbatim>\<open>f_bsize\<close> and
  \<^verbatim>\<open>f_bavail\<close>, \<open>None\<close> when the call fails).
\<close>

record World =
  fs_files :: "string \<Rightarrow> string option"
  fs_creatable :: "string \<Rightarrow> bool"
  fs_room :: nat
  wall_now :: nat
  fs_statvfs :: "(64 word \<times> 64 word) option"

text \<open>
  \<^verbatim>\<open>std::ofstream\<close>: \<open>o_fail\<close> is \<^verbatim>\<open>fail()\<close> (failbit or badbit), \<open>o_bytes\<close> the bytes of the
  file, \<open>o_put\<close> the put position. A write on a stream that is closed or has failed writes
  nothing; a write that would grow the file past \<open>o_room\<close> fails.

  The stream of this model has no buffer: every write goes to the device, and a write the
  device cannot take fails at that call. The source never flushes and sets no
  \<^verbatim>\<open>unitbuf\<close>, so the real stream keeps small writes in its buffer and reports a full device
  only at the write that empties the buffer (in libstdc++ a write of 1024 bytes or more
  always goes through with what the buffer holds), at \<^verbatim>\<open>seekp\<close> or at \<^verbatim>\<open>close\<close>. The bytes
  and their offsets are the same either way; the call at which \<^verbatim>\<open>fail()\<close> first shows is
  not. A write on a stream that is not open fails at once in both.
\<close>

record ofstream =
  o_is_open :: bool
  o_fail :: bool
  o_bytes :: string
  o_put :: nat
  o_room :: nat

definition put_at :: "nat \<Rightarrow> string \<Rightarrow> string \<Rightarrow> string" where
  "put_at p s bytes =
     take p bytes @ replicate (p - length bytes) (CHR 0x00) @ s @ drop (p + length s) bytes"

definition ofstream_open :: "World \<Rightarrow> string \<Rightarrow> ofstream \<Rightarrow> ofstream" where
  "ofstream_open w name os =
     (if o_is_open os \<or> \<not> fs_creatable w name then os\<lparr>o_fail := True\<rparr>
      else \<lparr>o_is_open = True, o_fail = False, o_bytes = [], o_put = 0, o_room = fs_room w\<rparr>)"

definition ofstream_write :: "string \<Rightarrow> ofstream \<Rightarrow> ofstream" where
  "ofstream_write s os =
     (if \<not> o_is_open os \<or> o_fail os then os\<lparr>o_fail := True\<rparr>
      else if o_room os < o_put os + length s then os\<lparr>o_fail := True\<rparr>
      else os\<lparr>o_bytes := put_at (o_put os) s (o_bytes os), o_put := o_put os + length s\<rparr>)"

definition ofstream_seekp :: "nat \<Rightarrow> ofstream \<Rightarrow> ofstream" where
  "ofstream_seekp p os =
     (if o_fail os then os
      else if \<not> o_is_open os then os\<lparr>o_fail := True\<rparr>
      else os\<lparr>o_put := p\<rparr>)"

definition ofstream_close :: "ofstream \<Rightarrow> ofstream" where
  "ofstream_close os = (if o_is_open os then os\<lparr>o_is_open := False\<rparr> else os\<lparr>o_fail := True\<rparr>)"

text \<open>
  \<^verbatim>\<open>std::ifstream\<close>, with the state bits the source tests: \<^verbatim>\<open>eof()\<close>, \<^verbatim>\<open>fail()\<close>, and
  \<^verbatim>\<open>good()\<close>, which is neither. A read on a stream that is not good reads nothing and sets
  failbit; a read past the end returns the bytes there are and sets eofbit and failbit. A
  seek is refused when \<^verbatim>\<open>fail()\<close> holds and leaves eofbit as it is (the library of the
  source's time; the source calls \<^verbatim>\<open>clear()\<close> itself after reading to the end).
\<close>

record ifstream =
  i_is_open :: bool
  i_eof :: bool
  i_fail :: bool
  i_bytes :: string
  i_get :: nat

definition ifstream_good :: "ifstream \<Rightarrow> bool" where
  "ifstream_good is = (\<not> i_eof is \<and> \<not> i_fail is)"

definition ifstream_open :: "World \<Rightarrow> string \<Rightarrow> ifstream \<Rightarrow> ifstream" where
  "ifstream_open w name is =
     (if i_is_open is then is\<lparr>i_fail := True\<rparr>
      else
        (case fs_files w name of
           None \<Rightarrow> is\<lparr>i_fail := True\<rparr>
         | Some bytes \<Rightarrow>
             \<lparr>i_is_open = True, i_eof = False, i_fail = False, i_bytes = bytes, i_get = 0\<rparr>))"

definition ifstream_read :: "nat \<Rightarrow> ifstream \<Rightarrow> string \<times> ifstream" where
  "ifstream_read n is =
     (if \<not> ifstream_good is then ([], is\<lparr>i_fail := True\<rparr>)
      else
        (let avail = drop (i_get is) (i_bytes is) in
         if n \<le> length avail then (take n avail, is\<lparr>i_get := i_get is + n\<rparr>)
         else (avail, is\<lparr>i_get := i_get is + length avail, i_eof := True, i_fail := True\<rparr>)))"

definition ifstream_seekg :: "nat \<Rightarrow> ifstream \<Rightarrow> ifstream" where
  "ifstream_seekg p is =
     (if i_fail is then is
      else if \<not> i_is_open is then is\<lparr>i_fail := True\<rparr>
      else is\<lparr>i_get := p\<rparr>)"

definition ifstream_clear :: "ifstream \<Rightarrow> ifstream" where
  "ifstream_clear is = is\<lparr>i_eof := False, i_fail := False\<rparr>"

text \<open>
  \<^verbatim>\<open>getline(stream, line)\<close>: on a stream that is not good the line keeps its value and
  failbit is set; otherwise the bytes up to the next newline, which is read and dropped.
  Reaching the end sets eofbit, and failbit too when nothing was read.
\<close>

definition ifstream_getline :: "string \<Rightarrow> ifstream \<Rightarrow> string \<times> ifstream" where
  "ifstream_getline line is =
     (if \<not> ifstream_good is then (line, is\<lparr>i_fail := True\<rparr>)
      else
        (let avail = drop (i_get is) (i_bytes is);
             l = takeWhile (\<lambda>c. c \<noteq> CHR 0x0A) avail in
         if length l < length avail then (l, is\<lparr>i_get := i_get is + length l + 1\<rparr>)
         else (l, is\<lparr>i_get := i_get is + length l, i_eof := True, i_fail := (l = [])\<rparr>)))"

text \<open>
  Storage the program reads before it wrote it (a local that a failed read left
  untouched, the bytes \<^verbatim>\<open>realloc\<close> added): \<open>fill n j got\<close> is an \<open>n\<close>-byte object whose first
  bytes are \<open>got\<close> and whose other bytes are the byte \<open>j\<close> found there.
\<close>

definition fill :: "nat \<Rightarrow> char \<Rightarrow> string \<Rightarrow> string" where
  "fill n j got = take n got @ replicate (n - length got) j"

subsection \<open>The header codec and the constants\<close>

text \<open>
  Modelled from the spec: \<^verbatim>\<open>ros::Header::write\<close> and \<^verbatim>\<open>ros::Header::parse\<close> (ros/header.h is
  not among the sources). A header is the concatenation, in the map's order, of the blocks
  \<^verbatim>\<open>name '=' value_len(4, little-endian) value\<close>. Decoding reverses this and fails on a block
  that is cut short (no \<^verbatim>\<open>'='\<close>, fewer than four length bytes) or whose declared length
  exceeds what is left; the fields decoded until then stay in the map.
\<close>

fun Header_write :: "M_string \<Rightarrow> string" where
  "Header_write [] = []"
| "Header_write ((name, v) # flds) =
     name @ [CHR ''=''] @ u32_bytes (word_of_nat (length v)) @ v @ Header_write flds"

function Header_parse_from :: "string \<Rightarrow> M_string \<Rightarrow> bool \<times> M_string" where
  "Header_parse_from buf flds =
     (if buf = [] then (True, flds)
      else
        (let name = takeWhile (\<lambda>c. c \<noteq> CHR ''='') buf;
             rest = drop (length name + 1) buf in
         if length buf \<le> length name then (False, flds)
         else if length rest < 4 then (False, flds)
         else
           (let n = unat (bytes_u32 (take 4 rest));
                body = drop 4 rest in
            if length body < n then (False, flds)
            else Header_parse_from (drop n body) (map_assign name (take n body) flds))))"
  by pat_completeness auto
termination
  by (relation "measure (\<lambda>(buf, flds). length buf)") auto

definition Header_parse :: "string \<Rightarrow> M_string \<Rightarrow> bool \<times> M_string" where
  "Header_parse buf flds = Header_parse_from buf flds"

text \<open>
  Modelled from the spec: the constants of rosbag/constants.h, which is not among the
  sources. The field names are those of the spec's table of header fields, \<^verbatim>\<open>VERSION\<close> is
  the spec's format version; the spec leaves the opcodes, \<^verbatim>\<open>INDEX_VERSION\<close> and
  \<^verbatim>\<open>FILE_HEADER_LENGTH\<close> to the implementation, and the values here are those of bag
  format 1.2. The byte counts in the theorems below (the file header ends at offset 4120)
  follow from these values.
\<close>

definition VERSION :: string where "VERSION = ''1.2''"
definition OP_FIELD_NAME :: string where "OP_FIELD_NAME = ''op''"
definition TOPIC_FIELD_NAME :: string where "TOPIC_FIELD_NAME = ''topic''"
definition MD5_FIELD_NAME :: string where "MD5_FIELD_NAME = ''md5''"
definition TYPE_FIELD_NAME :: string where "TYPE_FIELD_NAME = ''type''"
definition DEF_FIELD_NAME :: string where "DEF_FIELD_NAME = ''def''"
definition SEC_FIELD_NAME :: string where "SEC_FIELD_NAME = ''sec''"
definition NSEC_FIELD_NAME :: string where "NSEC_FIELD_NAME = ''nsec''"
definition LATCHING_FIELD_NAME :: string where "LATCHING_FIELD_NAME = ''latching''"
definition CALLERID_FIELD_NAME :: string where "CALLERID_FIELD_NAME = ''callerid''"
definition INDEX_POS_FIELD_NAME :: string where "INDEX_POS_FIELD_NAME = ''index_pos''"
definition VER_FIELD_NAME :: string where "VER_FIELD_NAME = ''ver''"
definition COUNT_FIELD_NAME :: string where "COUNT_FIELD_NAME = ''count''"
definition OP_MSG_DEF :: "8 word" where "OP_MSG_DEF = 0x01"
definition OP_MSG_DATA :: "8 word" where "OP_MSG_DATA = 0x02"
definition OP_FILE_HEADER :: "8 word" where "OP_FILE_HEADER = 0x03"
definition OP_INDEX_DATA :: "8 word" where "OP_INDEX_DATA = 0x04"
definition INDEX_VERSION :: "32 word" where "INDEX_VERSION = 0"
definition FILE_HEADER_LENGTH :: "32 word" where "FILE_HEADER_LENGTH = 4096"

subsection \<open>\<^verbatim>\<open>class Bag\<close>: the state\<close>

text \<open>
  \<^verbatim>\<open>ros::Message\<close>, as far as \<^verbatim>\<open>Bag::write\<close> asks it: \<^verbatim>\<open>__getMessageDefinition()\<close>,
  \<^verbatim>\<open>__getDataType()\<close>, \<^verbatim>\<open>__getMD5Sum()\<close>, the \<^verbatim>\<open>__connection_header\<close> pointer (\<open>None\<close> for
  \<^verbatim>\<open>NULL\<close>) and the bytes \<^verbatim>\<open>serialize\<close> produces; \<^verbatim>\<open>serializationLength()\<close> is their number
  as a \<^verbatim>\<open>uint32_t\<close>.
\<close>

record Message =
  getMessageDefinition :: string
  getDataType :: string
  getMD5Sum :: string
  connection_header :: "M_string option"
  serialized :: string

definition serializationLength :: "Message \<Rightarrow> 32 word" where
  "serializationLength msg = word_of_nat (length (serialized msg))"

text \<open>
  The members of \<^verbatim>\<open>class Bag\<close>. The three mutexes are left out (one thread runs the bag
  here), and so is what the \<^verbatim>\<open>ROS_WARN\<close>, \<^verbatim>\<open>ROS_ERROR\<close> and \<^verbatim>\<open>ROS_FATAL\<close> calls print: they
  change nothing in the bag. \<open>header_buf\<close> and \<open>message_buf\<close> are the bytes of the two
  allocated buffers. \<open>indet\<close> is not a member: it is the byte found in storage that the
  program reads without having written it. \<^verbatim>\<open>int\<close> members are \<open>int\<close>: no run below
  brings them near \<open>2^31\<close>.
\<close>

record Bag =
  version :: int
  version_major :: int
  version_minor :: int
  mode :: int
  file_name :: string
  read_stream :: ifstream
  write_stream :: ofstream
  record_pos :: "64 word"
  file_header_pos :: "64 word"
  index_data_pos :: "64 word"
  topics_recorded :: "MsgInfo std_map"
  topic_indexes :: "IndexEntry list std_map"
  header_buf :: string
  header_buf_len :: "32 word"
  header_buf_size :: "32 word"
  message_buf :: string
  message_buf_len :: "32 word"
  message_buf_size :: "32 word"
  writing_enabled :: bool
  check_disk_next :: nat
  warn_next :: nat
  indet :: char

text \<open>
  \<^verbatim>\<open>Bag::Bag()\<close> on the storage \<open>raw\<close>: the members with an initialiser or a default
  constructor get their values, \<^verbatim>\<open>mode_\<close>, \<^verbatim>\<open>record_pos_\<close> and the three version numbers
  keep what the storage held.
\<close>

definition Bag_new :: "Bag \<Rightarrow> Bag" where
  "Bag_new raw = raw\<lparr>
     file_name := [],
     read_stream := \<lparr>i_is_open = False, i_eof = False, i_fail = False, i_bytes = [], i_get = 0\<rparr>,
     write_stream := \<lparr>o_is_open = False, o_fail = False, o_bytes = [], o_put = 0, o_room = 0\<rparr>,
     file_header_pos := 0, index_data_pos := 0,
     topics_recorded := [], topic_indexes := [],
     header_buf := [], header_buf_len := 0, header_buf_size := 0,
     message_buf := [], message_buf_len := 0, message_buf_size := 0,
     writing_enabled := True, check_disk_next := 0, warn_next := 0\<rparr>"

definition readMode :: "Bag \<Rightarrow> bool" where
  "readMode b = (and (mode b) 0x01 \<noteq> 0)"

definition writeMode :: "Bag \<Rightarrow> bool" where
  "writeMode b = (and (mode b) 0x02 \<noteq> 0)"

definition appendMode :: "Bag \<Rightarrow> bool" where
  "appendMode b = (and (mode b) 0x04 \<noteq> 0)"

definition seconds :: "nat \<Rightarrow> nat" where
  "seconds n = n * 1000000000"

subsection \<open>The writer\<close>

definition writefil :: "string \<Rightarrow> Bag \<Rightarrow> Bag" where
  "writefil s b = b\<lparr>write_stream := ofstream_write s (write_stream b),
                    record_pos := record_pos b + word_of_nat (length s)\<rparr>"

definition seek :: "64 word \<Rightarrow> Bag \<Rightarrow> Bag" where
  "seek p b = b\<lparr>write_stream := ofstream_seekp (unat p) (write_stream b), record_pos := p\<rparr>"

text \<open>\<^verbatim>\<open>header_len\<close> and \<^verbatim>\<open>data_len\<close> are \<^verbatim>\<open>uint32_t\<close>; \<^verbatim>\<open>writefil(buffer, header_len)\<close> writes
  that many bytes of the buffer.\<close>

definition writeHeader :: "M_string \<Rightarrow> 32 word \<Rightarrow> Bag \<Rightarrow> Bag" where
  "writeHeader flds data_len b =
     (let header_buffer = Header_write flds;
          header_len = (word_of_nat (length header_buffer) :: 32 word) in
      writefil (u32_bytes data_len)
        (writefil (take (unat header_len) header_buffer)
          (writefil (u32_bytes header_len) b)))"

definition writeRecord :: "M_string \<Rightarrow> string \<Rightarrow> 32 word \<Rightarrow> Bag \<Rightarrow> Bag" where
  "writeRecord flds data data_len b =
     writefil (take (unat data_len) data) (writeHeader flds data_len b)"

definition writeVersion :: "Bag \<Rightarrow> Bag" where
  "writeVersion b = writefil (''#ROSRECORD V'' @ VERSION @ [CHR 0x0A]) b"

definition checkDisk :: "World \<Rightarrow> Bag \<Rightarrow> bool \<times> Bag" where
  "checkDisk w b =
     (case fs_statvfs w of
        None \<Rightarrow> (True, b)
      | Some (f_bsize, f_bavail) \<Rightarrow>
          (let free_space = f_bsize * f_bavail in
           if free_space < 1073741824 then (False, b\<lparr>writing_enabled := False\<rparr>)
           else if free_space < 5368709120 then (True, b)
           else (True, b\<lparr>writing_enabled := True\<rparr>)))"

definition writeFileHeader :: "Bag \<Rightarrow> Bag" where
  "writeFileHeader b =
     (let b1 = b\<lparr>file_header_pos := record_pos b\<rparr>;
          header = map_assign INDEX_POS_FIELD_NAME (u64_bytes (index_data_pos b1))
                     (map_assign OP_FIELD_NAME (u8_bytes OP_FILE_HEADER) []);
          header_buffer = Header_write header;
          header_len = (word_of_nat (length header_buffer) :: 32 word);
          data_len = (if header_len < FILE_HEADER_LENGTH then FILE_HEADER_LENGTH - header_len
                      else 0);
          b2 = writefil (u32_bytes data_len)
                 (writefil (take (unat header_len) header_buffer)
                   (writefil (u32_bytes header_len) b1)) in
      if 0 < data_len then writefil (replicate (unat data_len) CHR '' '') b2 else b2)"

text \<open>
  The buffer's new size in \<^verbatim>\<open>Bag::write\<close>: the length when the buffer was empty, else the
  size doubled while it is too small. The doubling is \<^verbatim>\<open>unsigned int\<close> arithmetic and can
  wrap to \<open>0\<close>, after which the loop never ends: \<open>None\<close>.
\<close>

definition grow_size :: "32 word \<Rightarrow> 32 word \<Rightarrow> 32 word option" where
  "grow_size sz len =
     (if sz = 0 then Some len else while_option (\<lambda>s. s < len) (\<lambda>s. s * 2) sz)"

definition latching_of :: "Message \<Rightarrow> bool" where
  "latching_of msg =
     (case connection_header msg of
        None \<Rightarrow> False
      | Some h \<Rightarrow> (case map_of h ''latching'' of None \<Rightarrow> False | Some v \<Rightarrow> v \<noteq> ''0''))"

definition callerid_of :: "Message \<Rightarrow> string" where
  "callerid_of msg =
     (case connection_header msg of
        None \<Rightarrow> []
      | Some h \<Rightarrow> (case map_of h ''callerid'' of None \<Rightarrow> [] | Some v \<Rightarrow> v))"

text \<open>The two headers \<^verbatim>\<open>Bag::write\<close> assembles, field by field as the source assigns them.\<close>

definition def_header :: "string \<Rightarrow> MsgInfo \<Rightarrow> M_string" where
  "def_header topic_name mi =
     map_assign DEF_FIELD_NAME (msg_def mi)
       (map_assign TYPE_FIELD_NAME (data_type mi)
         (map_assign MD5_FIELD_NAME (md5sum mi)
           (map_assign TOPIC_FIELD_NAME topic_name
             (map_assign OP_FIELD_NAME (u8_bytes OP_MSG_DEF) []))))"

definition data_header :: "string \<Rightarrow> MsgInfo \<Rightarrow> Time \<Rightarrow> bool \<Rightarrow> string \<Rightarrow> M_string" where
  "data_header topic_name mi t latching callerid =
     (let header =
            map_assign NSEC_FIELD_NAME (u32_bytes (nsec t))
              (map_assign SEC_FIELD_NAME (u32_bytes (sec t))
                (map_assign TYPE_FIELD_NAME (data_type mi)
                  (map_assign MD5_FIELD_NAME (md5sum mi)
                    (map_assign TOPIC_FIELD_NAME topic_name
                      (map_assign OP_FIELD_NAME (u8_bytes OP_MSG_DATA) []))))) in
      if latching
      then map_assign CALLERID_FIELD_NAME callerid (map_assign LATCHING_FIELD_NAME ''1'' header)
      else header)"

text \<open>
  \<^verbatim>\<open>Bag::write(topic_name, time, msg)\<close>. The result is the bag after the call (\<open>Inr\<close>), or
  what stopped the run. The source has no \<^verbatim>\<open>throw\<close>: \<open>Inl BagIOException\<close> is never the
  result.
\<close>

definition Bag_write :: "World \<Rightarrow> string \<Rightarrow> Time \<Rightarrow> Message \<Rightarrow> Bag \<Rightarrow> error + Bag" where
  "Bag_write w topic_name t msg b =
     (if \<not> writing_enabled b then
        (let nowtime = wall_now w in
         if warn_next b < nowtime then Inr (b\<lparr>warn_next := nowtime + seconds 5\<rparr>) else Inr b)
      else
        (let needs_def_written = (map_of (topics_recorded b) topic_name = None);
             b1 = (if needs_def_written
                   then b\<lparr>topics_recorded :=
                            map_assign topic_name
                              \<lparr>topic = topic_name, msg_def = getMessageDefinition msg,
                               md5sum = getMD5Sum msg, data_type = getDataType msg\<rparr>
                              (topics_recorded b),
                          topic_indexes := map_assign topic_name [] (topic_indexes b)\<rparr>
                   else b);
             msg_info = (case map_of (topics_recorded b1) topic_name of
                           Some mi \<Rightarrow> mi
                         | None \<Rightarrow> \<lparr>topic = [], msg_def = [], md5sum = [], data_type = []\<rparr>);
             b2 = (if check_disk_next b1 < wall_now w
                   then snd (checkDisk w (b1\<lparr>check_disk_next := check_disk_next b1 + seconds 20\<rparr>))
                   else b1);
             latching = latching_of msg;
             callerid = callerid_of msg;
             index_entry = \<lparr>time = t, pos = record_pos b2\<rparr>;
             b3 = b2\<lparr>topic_indexes :=
                       map_assign topic_name
                         ((case map_of (topic_indexes b2) topic_name of
                             None \<Rightarrow> [] | Some ix \<Rightarrow> ix) @ [index_entry])
                         (topic_indexes b2)\<rparr>;
             b4 = (if needs_def_written then writeHeader (def_header topic_name msg_info) 0 b3
                   else b3);
             len = serializationLength msg in
         (case (if message_buf_size b4 < len
                then map_option
                       (\<lambda>sz. b4\<lparr>message_buf_size := sz,
                                 message_buf := fill (unat sz) (indet b4) (message_buf b4)\<rparr>)
                       (grow_size (message_buf_size b4) len)
                else Some b4) of
            None \<Rightarrow> Inl Diverges
          | Some b5 \<Rightarrow>
              (let b6 = b5\<lparr>message_buf :=
                             serialized msg @ drop (length (serialized msg)) (message_buf b5)\<rparr> in
               Inr (writeRecord (data_header topic_name msg_info t latching callerid)
                      (message_buf b6) len b6)))))"

text \<open>\<^verbatim>\<open>Bag::writeIndex\<close>: one record per topic, in the map's order, then the file header
  again in its place. \<^verbatim>\<open>topics_recorded_[topic_name]\<close> adds an empty \<^verbatim>\<open>MsgInfo\<close> when the topic
  has none.\<close>

fun write_index_entries :: "IndexEntry list \<Rightarrow> Bag \<Rightarrow> Bag" where
  "write_index_entries [] b = b"
| "write_index_entries (index_entry # rest) b =
     write_index_entries rest
       (writefil (u64_bytes (pos index_entry))
         (writefil (u32_bytes (nsec (time index_entry)))
           (writefil (u32_bytes (sec (time index_entry))) b)))"

definition index_header :: "string \<Rightarrow> MsgInfo \<Rightarrow> 32 word \<Rightarrow> M_string" where
  "index_header topic_name mi topic_index_size =
     map_assign COUNT_FIELD_NAME (u32_bytes topic_index_size)
       (map_assign VER_FIELD_NAME (u32_bytes INDEX_VERSION)
         (map_assign TYPE_FIELD_NAME (data_type mi)
           (map_assign TOPIC_FIELD_NAME topic_name
             (map_assign OP_FIELD_NAME (u8_bytes OP_INDEX_DATA) []))))"

fun writeIndex_loop :: "IndexEntry list std_map \<Rightarrow> Bag \<Rightarrow> Bag" where
  "writeIndex_loop [] b = b"
| "writeIndex_loop ((topic_name, topic_index) # rest) b =
     (let topic_index_size = (word_of_nat (length topic_index) :: 32 word);
          b1 = (case map_of (topics_recorded b) topic_name of
                  Some mi \<Rightarrow> b
                | None \<Rightarrow>
                    b\<lparr>topics_recorded :=
                        map_assign topic_name
                          \<lparr>topic = [], msg_def = [], md5sum = [], data_type = []\<rparr>
                          (topics_recorded b)\<rparr>);
          msg_info = (case map_of (topics_recorded b1) topic_name of
                        Some mi \<Rightarrow> mi
                      | None \<Rightarrow> \<lparr>topic = [], msg_def = [], md5sum = [], data_type = []\<rparr>);
          data_len = topic_index_size * 16 in
      writeIndex_loop rest
        (write_index_entries topic_index
          (writeHeader (index_header topic_name msg_info topic_index_size) data_len b1)))"

definition writeIndex :: "Bag \<Rightarrow> Bag" where
  "writeIndex b =
     (let b1 = b\<lparr>index_data_pos := record_pos b\<rparr>;
          b2 = writeIndex_loop (topic_indexes b1) b1 in
      writeFileHeader (seek (file_header_pos b2) b2))"

definition Bag_close :: "Bag \<Rightarrow> Bag" where
  "Bag_close b =
     (if \<not> o_is_open (write_stream b) then b
      else
        (let b1 = writeIndex b;
             b2 = b1\<lparr>topics_recorded := [], topic_indexes := []\<rparr> in
         if o_is_open (write_stream b2)
         then b2\<lparr>write_stream := ofstream_close (write_stream b2)\<rparr>
         else b2))"

subsection \<open>The reader\<close>

text \<open>
  \<^verbatim>\<open>sscanf\<close> for the two formats of \<^verbatim>\<open>Bag::readVersion\<close>. \<^verbatim>\<open>%d\<close> skips white space and reads
  an optional sign and at least one digit; \<^verbatim>\<open>%s\<close> skips white space and reads up to the next
  white space, into \<^verbatim>\<open>char logtypename[100]\<close>; a blank in the format skips white space; any
  other character must match. Scanning stops at the first mismatch and the variables not
  yet assigned keep their values. The number goes into an \<^verbatim>\<open>int\<close>: \<open>store_int\<close> is what glibc
  stores on a machine with 64-bit \<^verbatim>\<open>long\<close> when the digits exceed it, the value saturated
  to the range of \<^verbatim>\<open>long\<close> and then cut to its low 32 bits (C leaves this case undefined).
\<close>

definition isspace :: "char \<Rightarrow> bool" where
  "isspace c = (c \<in> set [CHR '' '', CHR 0x09, CHR 0x0A, CHR 0x0B, CHR 0x0C, CHR 0x0D])"

definition isdigit :: "char \<Rightarrow> bool" where
  "isdigit c = (c \<in> set ''0123456789'')"

fun digits_value :: "int \<Rightarrow> string \<Rightarrow> int" where
  "digits_value acc [] = acc"
| "digits_value acc (c # cs) = digits_value (acc * 10 + (of_char c - 48)) cs"

definition store_int :: "int \<Rightarrow> int" where
  "store_int v = sint (word_of_int (max (- (2 ^ 63)) (min (2 ^ 63 - 1) v)) :: 32 word)"

definition scan_d :: "string \<Rightarrow> (int \<times> string) option" where
  "scan_d s =
     (let s1 = dropWhile isspace s;
          neg = (s1 \<noteq> [] \<and> hd s1 = CHR ''-'');
          s2 = (if s1 \<noteq> [] \<and> (hd s1 = CHR ''-'' \<or> hd s1 = CHR ''+'') then tl s1 else s1);
          ds = takeWhile isdigit s2 in
      if ds = [] then None
      else Some (store_int (if neg then - digits_value 0 ds else digits_value 0 ds),
                 drop (length ds) s2))"

definition scan_lit :: "string \<Rightarrow> string \<Rightarrow> string option" where
  "scan_lit lit s = (if take (length lit) s = lit then Some (drop (length lit) s) else None)"

definition sscanf_d_dot_d :: "string \<Rightarrow> int \<times> int \<Rightarrow> int \<times> int" where
  "sscanf_d_dot_d s old =
     (case scan_d s of
        None \<Rightarrow> old
      | Some (a, s1) \<Rightarrow>
          (case scan_lit ''.'' s1 of
             None \<Rightarrow> (a, snd old)
           | Some s2 \<Rightarrow> (case scan_d s2 of None \<Rightarrow> (a, snd old) | Some (b, s3) \<Rightarrow> (a, b))))"

definition sscanf_version_line :: "string \<Rightarrow> int \<times> int \<Rightarrow> error + int \<times> int" where
  "sscanf_version_line s old =
     (case scan_lit ''#ROS'' s of
        None \<Rightarrow> Inr old
      | Some s1 \<Rightarrow>
          (let s2 = dropWhile isspace s1;
               logtypename = takeWhile (\<lambda>c. \<not> isspace c) s2;
               s3 = dropWhile isspace (drop (length logtypename) s2) in
           if logtypename = [] then Inr old
           else if 100 \<le> length logtypename then Inl OutOfRange
           else
             (case scan_lit ''V'' s3 of
                None \<Rightarrow> Inr old
              | Some s4 \<Rightarrow> Inr (sscanf_d_dot_d s4 old))))"

text \<open>An \<^verbatim>\<open>int\<close> or \<^verbatim>\<open>uint32_t\<close> local that was never assigned.\<close>

definition indet_u32 :: "Bag \<Rightarrow> 32 word" where
  "indet_u32 b = bytes_u32 (replicate 4 (indet b))"

definition indet_int :: "Bag \<Rightarrow> int" where
  "indet_int b = sint (indet_u32 b)"

text \<open>
  \<^verbatim>\<open>Bag::readVersion\<close>. \<^verbatim>\<open>version_line[0]\<close> of an empty line is the terminating \<^verbatim>\<open>'\0'\<close>. The
  failed \<^verbatim>\<open>assert(0)\<close> is \<open>Inl AssertFailed\<close>.
\<close>

definition readVersion :: "Bag \<Rightarrow> error + bool \<times> Bag" where
  "readVersion b =
     (case ifstream_getline [] (read_stream b) of
        (version_line, is) \<Rightarrow>
          (case sscanf_version_line version_line (version_major b, version_minor b) of
             Inl e \<Rightarrow> Inl e
           | Inr (major, minor) \<Rightarrow>
               (let major' = (if major = 0 \<and> version_line \<noteq> [] \<and> hd version_line = CHR ''#''
                              then 1 else major);
                    b1 = b\<lparr>read_stream := is, version_major := major', version_minor := minor,
                            version := major' * 100 + minor\<rparr> in
                (case sscanf_d_dot_d VERSION (indet_int b, indet_int b) of
                   (cur_version_major, cur_version_minor) \<Rightarrow>
                     if version_major b1 \<noteq> cur_version_major \<and>
                        version_minor b1 \<noteq> cur_version_minor
                     then Inl AssertFailed
                     else Inr (True, b1)))))"

text \<open>
  \<^verbatim>\<open>Bag::readHeader(header, next_msg_size)\<close>: the two reference parameters come in with the
  caller's values and go out in the result, after the \<^verbatim>\<open>bool\<close>. \<open>overlay got old\<close> is an object
  that held \<open>old\<close> after a read stored \<open>got\<close> at its start.
\<close>

definition overlay :: "string \<Rightarrow> string \<Rightarrow> string" where
  "overlay got old = got @ drop (length got) old"

definition readHeader :: "M_string \<Rightarrow> 32 word \<Rightarrow> Bag \<Rightarrow> (bool \<times> M_string \<times> 32 word) \<times> Bag" where
  "readHeader header next_msg_size b =
     (case ifstream_read 4 (read_stream b) of
        (got, is1) \<Rightarrow>
          (let header_len = bytes_u32 (overlay got (replicate 4 (indet b)));
               b1 = b\<lparr>read_stream := is1\<rparr> in
           if i_eof is1 then ((False, header, next_msg_size), b1)
           else
             (let b2 = (if header_buf_len b1 < header_len
                        then b1\<lparr>header_buf_len := header_len,
                                header_buf := fill (unat header_len) (indet b1) (header_buf b1)\<rparr>
                        else b1) in
              (case ifstream_read (unat header_len) (read_stream b2) of
                 (got2, is2) \<Rightarrow>
                   (let b3 = b2\<lparr>read_stream := is2, header_buf := overlay got2 (header_buf b2)\<rparr> in
                    if i_eof is2 then ((False, header, next_msg_size), b3)
                    else
                      (case Header_parse (take (unat header_len) (header_buf b3)) header of
                         (parsed, header') \<Rightarrow>
                           if \<not> parsed then ((False, header', next_msg_size), b3)
                           else
                             (case ifstream_read 4 (read_stream b3) of
                                (got3, is3) \<Rightarrow>
                                  ((True, header',
                                    bytes_u32 (overlay got3 (u32_bytes next_msg_size))),
                                   b3\<lparr>read_stream := is3\<rparr>))))))))"

text \<open>\<^verbatim>\<open>Bag::checkField\<close>: the field's value, or \<open>None\<close> for \<^verbatim>\<open>fields.end()\<close>.\<close>

definition checkField :: "M_string \<Rightarrow> string \<Rightarrow> nat \<Rightarrow> nat \<Rightarrow> bool \<Rightarrow> string option" where
  "checkField flds field min_len max_len required =
     (case map_of flds field of
        None \<Rightarrow> None
      | Some v \<Rightarrow> if length v < min_len \<or> max_len < length v then None else Some v)"

definition UINT_MAX :: nat where
  "UINT_MAX = 4294967295"

text \<open>\<^verbatim>\<open>Bag::readFileHeader\<close>; the source does not look at what \<^verbatim>\<open>readHeader\<close> returns.\<close>

definition readFileHeader :: "Bag \<Rightarrow> error + bool \<times> Bag" where
  "readFileHeader b =
     (case readHeader [] (indet_u32 b) b of
        ((ok, flds, data_size), b1) \<Rightarrow>
          (case checkField flds OP_FIELD_NAME 1 1 True of
             None \<Rightarrow> Inr (False, b1)
           | Some opv \<Rightarrow>
               if bytes_u8 opv \<noteq> OP_FILE_HEADER then Inl AssertFailed
               else
                 (case checkField flds INDEX_POS_FIELD_NAME 8 8 True of
                    None \<Rightarrow> Inr (False, b1)
                  | Some v \<Rightarrow>
                      Inr (True,
                           b1\<lparr>index_data_pos := bytes_u64 v,
                              read_stream :=
                                ifstream_seekg (i_get (read_stream b1) + unat data_size)
                                  (read_stream b1)\<rparr>))))"

text \<open>
  \<^verbatim>\<open>Bag::readIndex\<close>. \<open>read_index_entries n\<close> is the \<^verbatim>\<open>for\<close> loop over \<^verbatim>\<open>count\<close> entries;
  \<open>readIndex_body\<close> is one pass through the \<^verbatim>\<open>do\<close> block: \<open>Some r\<close> when it returned \<open>r\<close>,
  \<open>None\<close> when it reached the loop's test (also by \<^verbatim>\<open>continue\<close>). \<^verbatim>\<open>count*sizeof(IndexEntry)\<close>
  is \<^verbatim>\<open>size_t\<close> arithmetic, 64 bits wide.
\<close>

fun read_index_entries :: "nat \<Rightarrow> Bag \<Rightarrow> IndexEntry list \<Rightarrow> Bag \<times> IndexEntry list" where
  "read_index_entries 0 b topic_index = (b, topic_index)"
| "read_index_entries (Suc n) b topic_index =
     (case ifstream_read 4 (read_stream b) of
        (g1, is1) \<Rightarrow>
          (case ifstream_read 4 is1 of
             (g2, is2) \<Rightarrow>
               (case ifstream_read 8 is2 of
                  (g3, is3) \<Rightarrow>
                    read_index_entries n (b\<lparr>read_stream := is3\<rparr>)
                      (topic_index @
                        [\<lparr>time = \<lparr>sec = bytes_u32 (overlay g1 (replicate 4 (indet b))),
                                   nsec = bytes_u32 (overlay g2 (replicate 4 (indet b)))\<rparr>,
                          pos = bytes_u64 (overlay g3 (replicate 8 (indet b)))\<rparr>]))))"

definition readIndex_body :: "Bag \<Rightarrow> error + bool option \<times> Bag" where
  "readIndex_body b =
     (case readHeader [] (indet_u32 b) b of
        ((ok, flds, data_size), b1) \<Rightarrow>
          if \<not> ok then Inr (None, b1)
          else
            (case checkField flds OP_FIELD_NAME 1 1 True of
               None \<Rightarrow> Inr (Some False, b1)
             | Some opv \<Rightarrow>
                 if bytes_u8 opv \<noteq> OP_INDEX_DATA then Inl AssertFailed
                 else
                   (case checkField flds VER_FIELD_NAME 4 4 True of
                      None \<Rightarrow> Inr (Some False, b1)
                    | Some verv \<Rightarrow>
                        if bytes_u32 verv \<noteq> INDEX_VERSION then Inl AssertFailed
                        else
                          (case checkField flds TOPIC_FIELD_NAME 1 UINT_MAX True of
                             None \<Rightarrow> Inr (Some False, b1)
                           | Some topic_name \<Rightarrow>
                               (case checkField flds TYPE_FIELD_NAME 1 UINT_MAX True of
                                  None \<Rightarrow> Inr (Some False, b1)
                                | Some dt \<Rightarrow>
                                    (case checkField flds COUNT_FIELD_NAME 4 4 True of
                                       None \<Rightarrow> Inr (Some False, b1)
                                     | Some cv \<Rightarrow>
                                         (let count = bytes_u32 cv in
                                          if unat count * 16 \<noteq> unat data_size
                                          then Inl AssertFailed
                                          else
                                            (case read_index_entries (unat count) b1
                                                    (case map_of (topic_indexes b1) topic_name of
                                                       None \<Rightarrow> [] | Some ix \<Rightarrow> ix) of
                                               (b2, topic_index) \<Rightarrow>
                                                 Inr (None,
                                                      b2\<lparr>topic_indexes :=
                                                           map_assign topic_name topic_index
                                                             (topic_indexes b2)\<rparr>)))))))))"

text \<open>
  The \<^verbatim>\<open>do ... while (read_stream_.good())\<close> loop of \<^verbatim>\<open>Bag::readIndex\<close>. Every pass starts
  with a four-byte read in \<^verbatim>\<open>readHeader\<close>; when the stream is still good after the pass,
  that read moved it forward, so the bytes left shrink and the loop ends.
\<close>

definition ifstream_left :: "ifstream \<Rightarrow> nat" where
  "ifstream_left is = length (i_bytes is) - i_get is"

definition read_on :: "ifstream \<Rightarrow> ifstream \<Rightarrow> bool" where
  "read_on is is' = (ifstream_good is' \<longrightarrow> ifstream_good is \<and> ifstream_left is' \<le> ifstream_left is)"

definition read_past :: "ifstream \<Rightarrow> ifstream \<Rightarrow> bool" where
  "read_past is is' = (ifstream_good is' \<longrightarrow> ifstream_good is \<and> ifstream_left is' < ifstream_left is)"

lemma read_on_refl: "read_on is is"
  by (simp add: read_on_def)

lemma read_past_on: "read_past a b \<Longrightarrow> read_on b c \<Longrightarrow> read_past a c"
  by (auto simp: read_on_def read_past_def)

lemma read_on_trans: "read_on a b \<Longrightarrow> read_on b c \<Longrightarrow> read_on a c"
  by (auto simp: read_on_def)

lemma ifstream_read_on: "read_on is (snd (ifstream_read n is))"
  by (auto simp: read_on_def ifstream_read_def ifstream_good_def ifstream_left_def Let_def)

lemma ifstream_read_past: "0 < n \<Longrightarrow> read_past is (snd (ifstream_read n is))"
  by (auto simp: read_past_def ifstream_read_def ifstream_good_def ifstream_left_def Let_def)

lemma readHeader_past: "read_past (read_stream b) (read_stream (snd (readHeader h n b)))"
proof -
  obtain got is1 where r1: "ifstream_read 4 (read_stream b) = (got, is1)" by (cases "ifstream_read 4 (read_stream b)")
  have p1: "read_past (read_stream b) is1" using ifstream_read_past[of 4 "read_stream b"] r1 by simp
  show ?thesis
  proof (cases "i_eof is1")
    case True
    then show ?thesis using p1 r1 by (simp add: readHeader_def Let_def)
  next
    case False
    define hl where "hl = bytes_u32 (overlay got (replicate 4 (indet b)))"
    obtain got2 is2 where r2: "ifstream_read (unat hl) is1 = (got2, is2)" by (cases "ifstream_read (unat hl) is1")
    have p2: "read_past (read_stream b) is2" using read_past_on[OF p1 ifstream_read_on[of is1 "unat hl"]] r2 by simp
    obtain got3 is3 where r3: "ifstream_read 4 is2 = (got3, is3)" by (cases "ifstream_read 4 is2")
    have p3: "read_past (read_stream b) is3" using read_past_on[OF p2 ifstream_read_on[of is2 4]] r3 by simp
    show ?thesis using False r1 r2 r3 p2 p3
      by (simp add: readHeader_def Let_def hl_def split: prod.splits)
  qed
qed

lemma read_index_entries_on:
  "read_on (read_stream b) (read_stream (fst (read_index_entries n b ix)))"
proof (induction n arbitrary: b ix)
  case 0
  show ?case by (simp add: read_on_refl)
next
  case (Suc n)
  obtain g1 is1 where r1: "ifstream_read 4 (read_stream b) = (g1, is1)" by (cases "ifstream_read 4 (read_stream b)")
  obtain g2 is2 where r2: "ifstream_read 4 is1 = (g2, is2)" by (cases "ifstream_read 4 is1")
  obtain g3 is3 where r3: "ifstream_read 8 is2 = (g3, is3)" by (cases "ifstream_read 8 is2")
  have "read_on (read_stream b) is1" using ifstream_read_on[of "read_stream b" 4] r1 by simp
  moreover have "read_on is1 is2" using ifstream_read_on[of is1 4] r2 by simp
  moreover have "read_on is2 is3" using ifstream_read_on[of is2 8] r3 by simp
  ultimately have a: "read_on (read_stream b) is3" by (blast intro: read_on_trans)
  have "read_on is3 (read_stream (fst (read_index_entries n (b\<lparr>read_stream := is3\<rparr>) (ix @
                        [\<lparr>time = \<lparr>sec = bytes_u32 (overlay g1 (replicate 4 (indet b))),
                                   nsec = bytes_u32 (overlay g2 (replicate 4 (indet b)))\<rparr>,
                          pos = bytes_u64 (overlay g3 (replicate 8 (indet b)))\<rparr>]))))"
    using Suc.IH[of "b\<lparr>read_stream := is3\<rparr>"] by simp
  with a show ?case using r1 r2 r3 by (simp add: read_on_trans)
qed

lemma readIndex_body_past:
  assumes "readIndex_body b = Inr (r, b')"
  shows "read_past (read_stream b) (read_stream b')"
proof -
  obtain ok flds ds b1 where rh: "readHeader [] (indet_u32 b) b = ((ok, flds, ds), b1)"
    by (metis prod.exhaust)
  have p1: "read_past (read_stream b) (read_stream b1)"
    using readHeader_past[of b "[]" "indet_u32 b"] rh by simp
  have "b' = b1 \<or> (\<exists>n ix. read_stream b' = read_stream (fst (read_index_entries n b1 ix)))"
    using assms rh unfolding readIndex_body_def
    apply (simp add: Let_def split: option.splits if_splits prod.splits)
    apply (elim conjE exE disjE)
    apply (auto intro: exI[where x="[]"] dest: arg_cong[where f=fst])
    apply (metis fst_conv)+
    done
  then show ?thesis
  proof
    assume "b' = b1" with p1 show ?thesis by simp
  next
    assume "\<exists>n ix. read_stream b' = read_stream (fst (read_index_entries n b1 ix))"
    then obtain n ix where e: "read_stream b' = read_stream (fst (read_index_entries n b1 ix))" by blast
    have "read_on (read_stream b1) (read_stream b')" using read_index_entries_on[of b1 n ix] e by simp
    with p1 show ?thesis by (simp add: read_past_on)
  qed
qed

function readIndex_loop :: "Bag \<Rightarrow> error + bool \<times> Bag" where
  "readIndex_loop b =
     (case readIndex_body b of
        Inl e \<Rightarrow> Inl e
      | Inr (Some r, b1) \<Rightarrow> Inr (r, b1)
      | Inr (None, b1) \<Rightarrow>
          if ifstream_good (read_stream b1) then readIndex_loop b1
          else Inr (True, b1\<lparr>read_stream := ifstream_clear (read_stream b1)\<rparr>))"
  by pat_completeness auto
termination
proof (relation "measure (\<lambda>b. ifstream_left (read_stream b))")
  show "wf (measure (\<lambda>b. ifstream_left (read_stream b)))" by simp
next
  fix b x2 x1 b1
  assume "readIndex_body b = Inr x2" "(x1, b1) = x2" "x1 = None" "ifstream_good (read_stream b1)"
  then have "readIndex_body b = Inr (None, b1)" by simp
  from readIndex_body_past[OF this] \<open>ifstream_good (read_stream b1)\<close>
  show "(b1, b) \<in> measure (\<lambda>b. ifstream_left (read_stream b))"
    by (simp add: read_past_def)
qed


definition readIndex :: "Bag \<Rightarrow> error + bool \<times> Bag" where
  "readIndex b =
     readIndex_loop
       (b\<lparr>read_stream := ifstream_seekg (unat (index_data_pos b)) (read_stream b)\<rparr>)"

text \<open>\<^verbatim>\<open>Bag::readDef(pos)\<close>.\<close>

definition readDef :: "64 word \<Rightarrow> Bag \<Rightarrow> error + bool \<times> Bag" where
  "readDef p b =
     (case readHeader [] (indet_u32 b)
             (b\<lparr>read_stream := ifstream_seekg (unat p) (read_stream b)\<rparr>) of
        ((ok, flds, data_size), b1) \<Rightarrow>
          if \<not> ok then Inr (False, b1)
          else
            (case checkField flds OP_FIELD_NAME 1 1 True of
               None \<Rightarrow> Inr (False, b1)
             | Some opv \<Rightarrow>
                 if bytes_u8 opv \<noteq> OP_MSG_DEF then Inl AssertFailed
                 else
                   (case checkField flds TOPIC_FIELD_NAME 1 UINT_MAX True of
                      None \<Rightarrow> Inr (False, b1)
                    | Some topic_name \<Rightarrow>
                        (case checkField flds MD5_FIELD_NAME 32 32 True of
                           None \<Rightarrow> Inr (False, b1)
                         | Some md5 \<Rightarrow>
                             (case checkField flds TYPE_FIELD_NAME 1 UINT_MAX True of
                                None \<Rightarrow> Inr (False, b1)
                              | Some dt \<Rightarrow>
                                  (case checkField flds DEF_FIELD_NAME 0 UINT_MAX True of
                                     None \<Rightarrow> Inr (False, b1)
                                   | Some message_definition \<Rightarrow>
                                       if map_of (topics_recorded b1) topic_name = None
                                       then Inr (True,
                                              b1\<lparr>topics_recorded :=
                                                   map_assign topic_name
                                                     \<lparr>topic = topic_name,
                                                      msg_def = message_definition,
                                                      md5sum = md5, data_type = dt\<rparr>
                                                     (topics_recorded b1)\<rparr>)
                                       else Inr (True, b1)))))))"

text \<open>
  \<^verbatim>\<open>Bag::readDefs\<close>: for every topic of \<^verbatim>\<open>topic_indexes_\<close>, \<^verbatim>\<open>readDef(j->pos)\<close> with
  \<^verbatim>\<open>j = topic_index.begin()\<close>, whatever \<^verbatim>\<open>readDef\<close> returns. On an empty index \<^verbatim>\<open>j\<close> is
  \<^verbatim>\<open>end()\<close> and \<^verbatim>\<open>j->pos\<close> reads outside the vector.
\<close>

fun readDefs_loop :: "IndexEntry list std_map \<Rightarrow> Bag \<Rightarrow> error + Bag" where
  "readDefs_loop [] b = Inr b"
| "readDefs_loop ((topic_name, topic_index) # rest) b =
     (case topic_index of
        [] \<Rightarrow> Inl OutOfRange
      | j # _ \<Rightarrow>
          (case readDef (pos j) b of
             Inl e \<Rightarrow> Inl e
           | Inr (r, b1) \<Rightarrow> readDefs_loop rest b1))"

definition readDefs :: "Bag \<Rightarrow> error + bool \<times> Bag" where
  "readDefs b =
     (case readDefs_loop (topic_indexes b) b of
        Inl e \<Rightarrow> Inl e
      | Inr b1 \<Rightarrow> Inr (True, b1))"

text \<open>
  \<^verbatim>\<open>Bag::open(file_name, mode)\<close>. In read mode the test after \<^verbatim>\<open>read_stream_.open\<close> is the
  source's \<^verbatim>\<open>write_stream_.fail()\<close>. The source drops what the four bootstrap calls return;
  only an abort stops it.
\<close>

definition Bag_open :: "World \<Rightarrow> string \<Rightarrow> int \<Rightarrow> Bag \<Rightarrow> error + bool \<times> Bag" where
  "Bag_open w name m b =
     (let b0 = b\<lparr>mode := m, file_name := name\<rparr> in
      if readMode b0 \<and> writeMode b0 then Inl AssertFailed
      else if appendMode b0 then Inl AssertFailed
      else
        (case (if writeMode b0 then
                 (let b1 = b0\<lparr>write_stream := ofstream_open w name (write_stream b0)\<rparr> in
                  if o_fail (write_stream b1) then (Some False, b1)
                  else
                    (None,
                     writeFileHeader
                       (writeVersion
                         (snd (checkDisk w
                           (b1\<lparr>check_disk_next := wall_now w + seconds 20, warn_next := 0,
                               record_pos := 0\<rparr>))))))
               else (None, b0)) of
           (Some r, b2) \<Rightarrow> Inr (r, b2)
         | (None, b2) \<Rightarrow>
             if readMode b2 then
               (let b3 = b2\<lparr>read_stream := ifstream_open w name (read_stream b2)\<rparr> in
                if o_fail (write_stream b3) then Inr (False, b3)
                else
                  (case readVersion b3 of
                     Inl e \<Rightarrow> Inl e
                   | Inr (r1, b4) \<Rightarrow>
                       (case readFileHeader b4 of
                          Inl e \<Rightarrow> Inl e
                        | Inr (r2, b5) \<Rightarrow>
                            (case readIndex b5 of
                               Inl e \<Rightarrow> Inl e
                             | Inr (r3, b6) \<Rightarrow>
                                 (case readDefs b6 of
                                    Inl e \<Rightarrow> Inl e
                                  | Inr (r4, b7) \<Rightarrow> Inr (True, b7))))))
             else Inr (True, b2)))"

subsection \<open>\<^verbatim>\<open>instantiate\<close>\<close>

text \<open>
  The \<^verbatim>\<open>do ... while (op == OP_MSG_DEF)\<close> loop of \<^verbatim>\<open>Bag::instantiate\<close>, with the one
  \<^verbatim>\<open>ros::Header\<close> object and \<^verbatim>\<open>data_size\<close> it reuses in every pass. The result is \<open>None\<close> in
  the first component when the function returned the empty pointer from inside the loop.
  On a stream that failed without reaching the end, \<^verbatim>\<open>readHeader\<close> can parse the same
  definition header from the buffer again and again: the loop need not end, and is a
  partial function.
\<close>

partial_function (option) instantiate_loop ::
  "M_string \<Rightarrow> 32 word \<Rightarrow> Bag \<Rightarrow> ((M_string \<times> 32 word \<times> 8 word) option \<times> Bag) option" where
  "instantiate_loop header data_size b =
     (case readHeader header data_size b of
        ((ok, header', data_size'), b1) \<Rightarrow>
          if \<not> ok then Some (None, b1)
          else
            (case checkField header' OP_FIELD_NAME 1 1 True of
               None \<Rightarrow> Some (None, b1)
             | Some opv \<Rightarrow>
                 if bytes_u8 opv = OP_MSG_DEF then instantiate_loop header' data_size' b1
                 else Some (Some (header', data_size', bytes_u8 opv), b1)))"

declare instantiate_loop.simps [code]


text \<open>
  What \<^verbatim>\<open>instantiate<T>\<close> hands back: the fresh \<^verbatim>\<open>T\<close> with its \<^verbatim>\<open>__connection_header\<close>, its
  \<^verbatim>\<open>__serialized_length\<close> and the bytes given to \<^verbatim>\<open>deserialize\<close>. Of \<^verbatim>\<open>T\<close> the functions use
  \<^verbatim>\<open>ros::message_traits::MD5Sum<T>::value()\<close>, the argument \<open>md5T\<close>; \<^verbatim>\<open>value()[0]\<close> of the empty
  string is its terminating \<^verbatim>\<open>'\0'\<close>.
\<close>

record Instance =
  inst_connection_header :: M_string
  inst_serialized_length :: "32 word"
  inst_bytes :: string

definition first_char :: "string \<Rightarrow> char" where
  "first_char s = (case s of [] \<Rightarrow> CHR 0x00 | c # _ \<Rightarrow> c)"

definition Bag_instantiate :: "string \<Rightarrow> 64 word \<Rightarrow> Bag \<Rightarrow> error + Instance option \<times> Bag" where
  "Bag_instantiate md5T p b =
     (case instantiate_loop [] (indet_u32 b)
             (b\<lparr>read_stream := ifstream_seekg (unat p) (read_stream b)\<rparr>) of
        None \<Rightarrow> Inl Diverges
      | Some (None, b1) \<Rightarrow> Inr (None, b1)
      | Some (Some (flds, data_size, op), b1) \<Rightarrow>
          if op \<noteq> OP_MSG_DATA then Inl AssertFailed
          else
            (case checkField flds TOPIC_FIELD_NAME 1 UINT_MAX True of
               None \<Rightarrow> Inr (None, b1)
             | Some topic_name \<Rightarrow>
                 (case checkField flds MD5_FIELD_NAME 32 32 True of
                    None \<Rightarrow> Inr (None, b1)
                  | Some md5 \<Rightarrow>
                      if \<not> (md5T = md5 \<or> first_char md5T = CHR ''*'') then Inl AssertFailed
                      else
                        (case checkField flds TYPE_FIELD_NAME 1 UINT_MAX True of
                           None \<Rightarrow> Inr (None, b1)
                         | Some dt \<Rightarrow>
                             (let b2 = b1\<lparr>message_buf_len := data_size\<rparr>;
                                  b3 = (if message_buf_size b2 < message_buf_len b2
                                        then b2\<lparr>message_buf_size := message_buf_len b2 * 2,
                                                message_buf :=
                                                  replicate (unat (message_buf_len b2 * 2))
                                                    (indet b2)\<rparr>
                                        else b2) in
                              if message_buf_size b3 < message_buf_len b3 then Inl OutOfRange
                              else
                                (case ifstream_read (unat (message_buf_len b3)) (read_stream b3) of
                                   (got, is) \<Rightarrow>
                                     (let b4 = b3\<lparr>read_stream := is,
                                                 message_buf := overlay got (message_buf b3)\<rparr> in
                                      Inr (Some
                                            \<lparr>inst_connection_header =
                                               map_assign ''message_definition'' []
                                                 (map_assign ''type'' dt
                                                   (map_assign ''md5sum'' md5 [])),
                                             inst_serialized_length = message_buf_len b4,
                                             inst_bytes =
                                               take (unat (message_buf_len b4)) (message_buf b4)\<rparr>,
                                           b4))))))))"

text \<open>\<^verbatim>\<open>MessageInstance::instantiate<T>()\<close>, on the bag the instance points to.\<close>

definition MessageInstance_instantiate ::
  "string \<Rightarrow> MessageInstance \<Rightarrow> Bag \<Rightarrow> error + Instance option \<times> Bag" where
  "MessageInstance_instantiate md5T m b =
     (if md5T \<noteq> getMd5sum m \<and> first_char md5T \<noteq> CHR ''*'' then Inr (None, b)
      else Bag_instantiate md5T (pos (index m)) b)"

section \<open>Verification\<close>

subsection \<open>Concrete bags, messages and worlds\<close>

text \<open>
  \<open>zero_storage\<close> is storage that holds zeros; \<open>Bag_new zero_storage\<close> is a bag constructed
  there. \<open>string_msg p\<close> is a \<^verbatim>\<open>std_msgs/String\<close> message whose serialized form is \<open>p\<close>.
\<close>

definition zero_storage :: Bag where
  "zero_storage = \<lparr>version = 0, version_major = 0, version_minor = 0, mode = 0, file_name = [],
     read_stream = \<lparr>i_is_open = False, i_eof = False, i_fail = False, i_bytes = [], i_get = 0\<rparr>,
     write_stream = \<lparr>o_is_open = False, o_fail = False, o_bytes = [], o_put = 0, o_room = 0\<rparr>,
     record_pos = 0, file_header_pos = 0, index_data_pos = 0, topics_recorded = [],
     topic_indexes = [], header_buf = [], header_buf_len = 0, header_buf_size = 0,
     message_buf = [], message_buf_len = 0, message_buf_size = 0, writing_enabled = False,
     check_disk_next = 0, warn_next = 0, indet = CHR 0x00\<rparr>"

definition string_msg :: "string \<Rightarrow> Message" where
  "string_msg p = \<lparr>getMessageDefinition = ''string data'', getDataType = ''std_msgs/String'',
     getMD5Sum = ''992ce8a1687cec8c8bd883ec73ca41d1'', connection_header = None,
     serialized = p\<rparr>"

definition string_info :: "string \<Rightarrow> MsgInfo" where
  "string_info t = \<lparr>topic = t, msg_def = ''string data'',
     md5sum = ''992ce8a1687cec8c8bd883ec73ca41d1'', data_type = ''std_msgs/String''\<rparr>"

definition at_sec :: "32 word \<Rightarrow> Time" where
  "at_sec n = \<lparr>sec = n, nsec = 0\<rparr>"

definition entry_at :: "32 word \<Rightarrow> 64 word \<Rightarrow> IndexEntry" where
  "entry_at n p = \<lparr>time = at_sec n, pos = p\<rparr>"

subsection \<open>Small facts about the encodings\<close>

lemma length_le_bytes [simp]: "length (le_bytes n v) = n"
  by (induction n arbitrary: v) auto

lemma length_u32_bytes [simp]: "length (u32_bytes w) = 4"
  by (simp add: u32_bytes_def)

lemma length_u64_bytes [simp]: "length (u64_bytes w) = 8"
  by (simp add: u64_bytes_def)

lemma length_u8_bytes [simp]: "length (u8_bytes w) = 1"
  by (simp add: u8_bytes_def)

lemma le_nat_le_bytes: "le_nat (le_bytes n v) = v mod 256 ^ n"
proof (induction n arbitrary: v)
  case 0
  show ?case by simp
next
  case (Suc n)
  show ?case by (simp add: Suc mod_mult2_eq)
qed

lemma bytes_u32_u32_bytes [simp]: "bytes_u32 (u32_bytes w) = w"
proof -
  have "unat w < 2 ^ 32" using unsigned_less[of w, where 'a=nat] by simp
  then have "unat w mod 256 ^ 4 = unat w" by simp
  then show ?thesis by (simp add: bytes_u32_def u32_bytes_def le_nat_le_bytes)
qed

lemma bytes_u64_u64_bytes [simp]: "bytes_u64 (u64_bytes w) = w"
proof -
  have "unat w < 2 ^ 64" using unsigned_less[of w, where 'a=nat] by simp
  then have "unat w mod 256 ^ 8 = unat w" by simp
  then show ?thesis by (simp add: bytes_u64_def u64_bytes_def le_nat_le_bytes)
qed

lemma bytes_u8_u8_bytes [simp]: "bytes_u8 (u8_bytes w) = w"
proof -
  have "unat w < 2 ^ 8" using unsigned_less[of w, where 'a=nat] by simp
  then have "unat w mod 256 ^ 1 = unat w" by simp
  then show ?thesis by (simp add: bytes_u8_def u8_bytes_def le_nat_le_bytes del: power_one_right)
qed

lemma store_int_small: "- (2 ^ 31) \<le> v \<Longrightarrow> v < 2 ^ 31 \<Longrightarrow> store_int v = v"
  by (simp add: store_int_def sint_sbintrunc' signed_take_bit_int_eq_self)

lemma sscanf_VERSION: "sscanf_d_dot_d VERSION old = (1, 2)"
  by (simp add: VERSION_def sscanf_d_dot_d_def scan_d_def isdigit_def isspace_def scan_lit_def
      Let_def store_int_small)

subsection \<open>C7: a write while writing is disabled\<close>

definition world_clock :: "nat \<Rightarrow> World" where
  "world_clock now =
     \<lparr>fs_files = (\<lambda>n. None), fs_creatable = (\<lambda>n. True), fs_room = 0, wall_now = now,
      fs_statvfs = None\<rparr>"

text \<open>
  C7 as stated fails: the bag state does not stay as it was. With writing disabled and the
  wall clock at 7 ns, past \<^verbatim>\<open>warn_next_\<close> (0), the call stores \<^verbatim>\<open>nowtime + 5 s\<close> in
  \<^verbatim>\<open>warn_next_\<close>, so the bag after the call is not the bag before it.
\<close>

theorem write_disabled_sets_warn_next:
  "\<not> writing_enabled zero_storage \<and>
   Bag_write (world_clock 7) ''/chatter'' (at_sec 1) (string_msg ''hello'') zero_storage =
     Inr (zero_storage\<lparr>warn_next := 5000000007\<rparr>) \<and>
   Bag_write (world_clock 7) ''/chatter'' (at_sec 1) (string_msg ''hello'') zero_storage \<noteq>
     Inr zero_storage"
  by (simp add: Bag_write_def Let_def zero_storage_def world_clock_def seconds_def)

text \<open>
  C7, amended. When \<open>writing_enabled\<close> is false, \<^verbatim>\<open>write\<close> returns normally (no error) and
  changes nothing of the bag but \<^verbatim>\<open>warn_next_\<close>, the time before which the "not logging"
  warning is not repeated: no index entry is appended, no topic is admitted to
  \<open>topics_recorded\<close>, the write stream (its bytes, its position, its state) and \<open>record_pos\<close>
  are as before, and so is every other member. \<^verbatim>\<open>warn_next_\<close> becomes the wall clock plus five
  seconds when the clock is past it, and stays otherwise.
\<close>

theorem write_disabled_discards:
  assumes "\<not> writing_enabled b"
  shows "\<exists>b'. Bag_write w topic_name t msg b = Inr b' \<and>
           topic_indexes b' = topic_indexes b \<and>
           topics_recorded b' = topics_recorded b \<and>
           write_stream b' = write_stream b \<and>
           record_pos b' = record_pos b \<and>
           b'\<lparr>warn_next := warn_next b\<rparr> = b \<and>
           warn_next b' =
             (if warn_next b < wall_now w then wall_now w + seconds 5 else warn_next b)"
  using assms by (simp add: Bag_write_def Let_def)

theorem write_disabled_discards_witness:
  "\<not> writing_enabled zero_storage \<and>
   (\<exists>b'. Bag_write (world_clock 9) ''/chatter'' (at_sec 1) (string_msg ''hello'') zero_storage
            = Inr b' \<and>
         topic_indexes b' = [] \<and> topics_recorded b' = [] \<and>
         o_bytes (write_stream b') = [] \<and> record_pos b' = 0 \<and>
         b'\<lparr>warn_next := 0\<rparr> = zero_storage \<and> warn_next b' = 5000000009)"
proof -
  have d: "\<not> writing_enabled zero_storage" by (simp add: zero_storage_def)
  from write_disabled_discards[OF d, of "world_clock 9" "''/chatter''" "at_sec 1"
      "string_msg ''hello''"]
  obtain b' where
    "Bag_write (world_clock 9) ''/chatter'' (at_sec 1) (string_msg ''hello'') zero_storage
       = Inr b'"
    "topic_indexes b' = topic_indexes zero_storage"
    "topics_recorded b' = topics_recorded zero_storage"
    "write_stream b' = write_stream zero_storage"
    "record_pos b' = record_pos zero_storage"
    "b'\<lparr>warn_next := warn_next zero_storage\<rparr> = zero_storage"
    "warn_next b' =
       (if warn_next zero_storage < wall_now (world_clock 9)
        then wall_now (world_clock 9) + seconds 5 else warn_next zero_storage)"
    by blast
  with d show ?thesis by (simp add: zero_storage_def world_clock_def seconds_def)
qed

subsection \<open>C8: the fingerprint test of \<^verbatim>\<open>MessageInstance::instantiate\<close>\<close>

text \<open>
  C8. When the fingerprint of the requested type differs from the one recorded for the
  instance and does not start with \<^verbatim>\<open>'*'\<close>, \<^verbatim>\<open>instantiate<T>()\<close> returns the empty pointer, with
  no error and the bag untouched. When the fingerprint starts with \<^verbatim>\<open>'*'\<close>, the test is
  skipped: the call is \<^verbatim>\<open>Bag::instantiate<T>\<close> at the entry's position, whatever the recorded
  fingerprint.
\<close>

theorem instantiate_fingerprint:
  "(md5T \<noteq> getMd5sum m \<and> first_char md5T \<noteq> CHR ''*'' \<longrightarrow>
      MessageInstance_instantiate md5T m b = Inr (None, b)) \<and>
   (first_char md5T = CHR ''*'' \<longrightarrow>
      MessageInstance_instantiate md5T m b = Bag_instantiate md5T (pos (index m)) b)"
  by (simp add: MessageInstance_instantiate_def)

theorem instantiate_fingerprint_witness:
  "(''0123'' \<noteq> getMd5sum \<lparr>info = string_info ''/chatter'', index = entry_at 1 4120\<rparr> \<and>
    first_char ''0123'' \<noteq> CHR ''*'') \<and>
   MessageInstance_instantiate ''0123''
     \<lparr>info = string_info ''/chatter'', index = entry_at 1 4120\<rparr> zero_storage =
     Inr (None, zero_storage) \<and>
   first_char ''*'' = CHR ''*'' \<and>
   MessageInstance_instantiate ''*''
     \<lparr>info = string_info ''/chatter'', index = entry_at 1 4120\<rparr> zero_storage =
     Bag_instantiate ''*'' 4120 zero_storage"
  using instantiate_fingerprint[of "''0123''"
          "\<lparr>info = string_info ''/chatter'', index = entry_at 1 4120\<rparr>" zero_storage]
        instantiate_fingerprint[of "''*''"
          "\<lparr>info = string_info ''/chatter'', index = entry_at 1 4120\<rparr>" zero_storage]
  by (simp add: getMd5sum_def string_info_def first_char_def entry_at_def)

subsection \<open>C3: the version test of \<^verbatim>\<open>Bag::readVersion\<close>\<close>

text \<open>
  The test is \<^verbatim>\<open>version_major_ != cur_version_major && version_minor_ != cur_version_minor\<close>:
  it stops the run only when both numbers differ.
\<close>

lemma sscanf_V1_3: "sscanf_version_line ''#ROSRECORD V1.3'' old = Inr (1, 3)"
  by (simp add: sscanf_version_line_def scan_lit_def isspace_def sscanf_d_dot_d_def scan_d_def
      isdigit_def Let_def store_int_small)

definition world_v13 :: World where
  "world_v13 =
     \<lparr>fs_files = (\<lambda>n. if n = ''v13.bag'' then Some (''#ROSRECORD V1.3'' @ [CHR 0x0A]) else None),
      fs_creatable = (\<lambda>n. False), fs_room = 0, wall_now = 0, fs_statvfs = None\<rparr>"

text \<open>
  C3 (the code at the failing input). A file whose version line says 1.3 is opened for
  reading by a library whose \<^verbatim>\<open>VERSION\<close> is 1.2: \<^verbatim>\<open>open\<close> returns \<^verbatim>\<open>true\<close>, with version 1.3
  recorded in the bag, instead of failing.
\<close>

theorem open_accepts_other_minor_version:
  "(case Bag_open world_v13 ''v13.bag'' 1 (Bag_new zero_storage) of
      Inl e \<Rightarrow> False
    | Inr (r, b) \<Rightarrow> r \<and> version_major b = 1 \<and> version_minor b = 3)"
  apply (simp add: Bag_open_def Bag_new_def zero_storage_def world_v13_def readMode_def
      writeMode_def appendMode_def ifstream_open_def readVersion_def ifstream_getline_def
      ifstream_good_def sscanf_V1_3 sscanf_VERSION Let_def)
  apply (simp add: readFileHeader_def readHeader_def ifstream_read_def ifstream_good_def
      Let_def checkField_def split: prod.splits)
  apply (simp add: readIndex_def ifstream_seekg_def)
  apply (subst readIndex_loop.simps)
  apply (simp add: readIndex_body_def readHeader_def ifstream_read_def ifstream_good_def
      Let_def ifstream_clear_def readDefs_def)
  done

subsection \<open>C10: \<^verbatim>\<open>Bag::open\<close> for reading tests the wrong stream\<close>

text \<open>
  \<open>storage_v1\<close> is storage in which the word that becomes \<^verbatim>\<open>version_major_\<close> holds 1 (the
  constructor does not set it). In \<open>world_empty\<close> no file can be opened.
\<close>

definition storage_v1 :: Bag where
  "storage_v1 = zero_storage\<lparr>version_major := 1\<rparr>"

definition world_empty :: World where
  "world_empty =
     \<lparr>fs_files = (\<lambda>n. None), fs_creatable = (\<lambda>n. False), fs_room = 0, wall_now = 0,
      fs_statvfs = None\<rparr>"

lemma world_empty_no_file: "fs_files world_empty n = None"
  by (simp add: world_empty_def)

text \<open>On a stream that failed without reaching the end, with zeros in unwritten storage,
  \<^verbatim>\<open>readHeader\<close> reads nothing and reports an empty header.\<close>

lemma readHeader_failed_stream:
  assumes "i_fail (read_stream b)" "\<not> i_eof (read_stream b)" "indet b = CHR 0x00" "header_buf_len b = 0"
  shows "readHeader [] n b = ((True, [], n), b)"
proof -
  have r: "\<And>k. ifstream_read k (read_stream b) = ([], read_stream b)"
    using assms(1) by (simp add: ifstream_read_def ifstream_good_def)
  have z: "bytes_u32 (overlay [] (replicate 4 (CHR 0x00))) = 0"
    by (simp add: bytes_u32_def overlay_def numeral_eq_Suc)
  have p: "Header_parse [] [] = (True, [])" by (simp add: Header_parse_def)
  have o: "bytes_u32 (overlay [] (u32_bytes n)) = n" by (simp add: overlay_def)
  show ?thesis
    using assms r z p o by (simp add: readHeader_def Let_def overlay_def)
qed

text \<open>
  C10. There is an input for which \<^verbatim>\<open>open(file_name, Read)\<close> returns \<^verbatim>\<open>true\<close> although the file
  could not be opened: the file does not exist, the read stream is left closed with failbit
  set, the test of \<^verbatim>\<open>write_stream_.fail()\<close> sees nothing, the four bootstrap calls run on the
  unopened stream, and the result is \<^verbatim>\<open>true\<close>.
\<close>

theorem open_read_misses_failed_open:
  "fs_files world_empty ''missing.bag'' = None \<and>
   (case Bag_open world_empty ''missing.bag'' 1 (Bag_new storage_v1) of
      Inl e \<Rightarrow> False
    | Inr (r, b) \<Rightarrow> r \<and> \<not> i_is_open (read_stream b) \<and> i_fail (read_stream b))"
proof -
  define b3 where "b3 = (Bag_new storage_v1)\<lparr>mode := 1, file_name := ''missing.bag'',
      read_stream := \<lparr>i_is_open = False, i_eof = False, i_fail = True, i_bytes = [], i_get = 0\<rparr>\<rparr>"
  define b4 where "b4 = b3\<lparr>version_major := 1, version_minor := 0, version := 100\<rparr>"
  have opened: "(Bag_new storage_v1)\<lparr>mode := 1, file_name := ''missing.bag'',
      read_stream := ifstream_open world_empty ''missing.bag''
        (read_stream (Bag_new storage_v1))\<rparr> = b3"
    by (simp add: b3_def ifstream_open_def Bag_new_def world_empty_def)
  have wfail: "\<not> o_fail (write_stream b3)"
    by (simp add: b3_def Bag_new_def)
  have v: "readVersion b3 = Inr (True, b4)"
    by (simp add: readVersion_def b3_def b4_def Bag_new_def storage_v1_def zero_storage_def
        ifstream_getline_def ifstream_good_def sscanf_version_line_def scan_lit_def
        sscanf_VERSION)
  have st: "i_fail (read_stream b4)" "\<not> i_eof (read_stream b4)" "indet b4 = CHR 0x00"
      "header_buf_len b4 = 0"
    by (simp_all add: b4_def b3_def Bag_new_def storage_v1_def zero_storage_def)
  have fh: "readFileHeader b4 = Inr (False, b4)"
    by (simp add: readFileHeader_def readHeader_failed_stream[OF st] checkField_def)
  have sk: "b4\<lparr>read_stream := ifstream_seekg (unat (index_data_pos b4)) (read_stream b4)\<rparr> = b4"
    using st(1) by (simp add: ifstream_seekg_def)
  have body: "readIndex_body b4 = Inr (Some False, b4)"
    by (simp add: readIndex_body_def readHeader_failed_stream[OF st] checkField_def)
  have ix: "readIndex b4 = Inr (False, b4)"
    unfolding readIndex_def sk by (subst readIndex_loop.simps) (simp add: body)
  have ds: "readDefs b4 = Inr (True, b4)"
    by (simp add: readDefs_def b4_def b3_def Bag_new_def)
  have "Bag_open world_empty ''missing.bag'' 1 (Bag_new storage_v1) = Inr (True, b4)"
    using wfail
    by (simp add: Bag_open_def Let_def opened v fh ix ds readMode_def writeMode_def
        appendMode_def)
  moreover have "\<not> i_is_open (read_stream b4)" "i_fail (read_stream b4)"
    by (simp_all add: b4_def b3_def)
  ultimately show ?thesis by (simp add: world_empty_no_file)
qed

subsection \<open>The view: binary searches and merge\<close>

text \<open>
  Timestamps are compared through \<open>time_key\<close>, the number \<open>sec * 2^32 + nsec\<close>. An index is
  \<open>index_sorted\<close> when its timestamps never decrease, which is what \<^verbatim>\<open>std::lower_bound\<close> and
  \<^verbatim>\<open>std::upper_bound\<close> require of it and what the source's comment ("an efficient merge of
  our sorted lists") takes for granted.
\<close>

definition time_key :: "Time \<Rightarrow> nat" where
  "time_key t = unat (sec t) * 2 ^ 32 + unat (nsec t)"

lemma Time_less_key: "Time_less a b \<longleftrightarrow> time_key a < time_key b"
proof -
  have a: "unat (nsec a) < 2 ^ 32" using unsigned_less[of "nsec a", where 'a=nat] by simp
  have b: "unat (nsec b) < 2 ^ 32" using unsigned_less[of "nsec b", where 'a=nat] by simp
  have eq: "sec a = sec b \<longleftrightarrow> unat (sec a) = unat (sec b)" by (simp add: word_unat_eq_iff)
  have "unat (sec a) < unat (sec b) \<Longrightarrow> time_key a < time_key b"
  proof -
    assume "unat (sec a) < unat (sec b)"
    then have "Suc (unat (sec a)) \<le> unat (sec b)" by simp
    then have "Suc (unat (sec a)) * 2 ^ 32 \<le> unat (sec b) * 2 ^ 32" by (rule mult_le_mono1)
    with a show ?thesis by (simp add: time_key_def)
  qed
  moreover have "unat (sec b) < unat (sec a) \<Longrightarrow> time_key b < time_key a"
  proof -
    assume "unat (sec b) < unat (sec a)"
    then have "Suc (unat (sec b)) \<le> unat (sec a)" by simp
    then have "Suc (unat (sec b)) * 2 ^ 32 \<le> unat (sec a) * 2 ^ 32" by (rule mult_le_mono1)
    with b show ?thesis by (simp add: time_key_def)
  qed
  ultimately show ?thesis
    unfolding Time_less_def word_less_nat_alt eq
    by (cases "unat (sec a)" "unat (sec b)" rule: linorder_cases) (auto simp: time_key_def)
qed

lemma Time_le_key: "Time_le a b \<longleftrightarrow> time_key a \<le> time_key b"
  by (simp add: Time_le_def Time_less_key not_less)

definition index_sorted :: "IndexEntry list \<Rightarrow> bool" where
  "index_sorted v = sorted_wrt (\<lambda>a b. Time_le (time a) (time b)) v"

lemma index_sorted_nth:
  "index_sorted v \<Longrightarrow> i \<le> j \<Longrightarrow> j < length v \<Longrightarrow> time_key (time (v ! i)) \<le> time_key (time (v ! j))"
  by (cases "i = j") (auto simp: index_sorted_def sorted_wrt_iff_nth_less Time_le_key)








text \<open>
  A helper is \<open>helper_ok\<close> when its range is a non-empty part of its vector. Reading a queue
  of such helpers ends without error and yields exactly the instances of their ranges
  (\<open>queue_instances\<close>), in ascending order of time when every vector is sorted.
\<close>

declare view_iterate.simps [simp del]

definition helper_ok :: "MergeHelper \<Rightarrow> bool" where
  "helper_ok h = (iter h < end_iter h \<and> end_iter h \<le> length (vec h))"

definition helper_slice :: "MergeHelper \<Rightarrow> IndexEntry list" where
  "helper_slice h = drop (iter h) (take (end_iter h) (vec h))"

definition helper_instances :: "MergeHelper \<Rightarrow> MessageInstance list" where
  "helper_instances h = map (\<lambda>e. \<lparr>info = msg_info h, index = e\<rparr>) (helper_slice h)"

definition queue_instances :: "MergeQueue \<Rightarrow> MessageInstance multiset" where
  "queue_instances q = sum_mset (image_mset (\<lambda>h. mset (helper_instances h)) (mset q))"

lemma deref_ok: "helper_ok h \<Longrightarrow> deref h = Inr (vec h ! iter h)"
  by (simp add: helper_ok_def deref_def)

lemma queue_push_total:
  "helper_ok h \<Longrightarrow> \<forall>x\<in>set q. helper_ok x \<Longrightarrow> \<exists>q'. queue_push h q = Inr q'"
proof (induction q)
  case Nil
  show ?case by simp
next
  case (Cons x q)
  then obtain q' where "queue_push h q = Inr q'" by auto
  with Cons.prems show ?case by (simp add: deref_ok)
qed

lemma queue_push_set: "queue_push h q = Inr q' \<Longrightarrow> set q' = insert h (set q)"
proof -
  assume "queue_push h q = Inr q'"
  then have "mset q' = add_mset h (mset q)" by (rule queue_push_mset)
  then have "set_mset (mset q') = set_mset (add_mset h (mset q))" by simp
  then show ?thesis by simp
qed

lemma helper_slice_step:
  assumes "helper_ok h"
  shows "helper_slice h = (vec h ! iter h) # helper_slice (h\<lparr>iter := Suc (iter h)\<rparr>)"
proof -
  have l: "iter h < length (take (end_iter h) (vec h))" using assms by (simp add: helper_ok_def)
  have "drop (iter h) (take (end_iter h) (vec h)) =
        take (end_iter h) (vec h) ! iter h # drop (Suc (iter h)) (take (end_iter h) (vec h))"
    using Cons_nth_drop_Suc[OF l] by simp
  moreover have "take (end_iter h) (vec h) ! iter h = vec h ! iter h"
    using assms by (simp add: helper_ok_def)
  ultimately show ?thesis by (simp add: helper_slice_def)
qed

lemma helper_slice_done:
  "helper_ok h \<Longrightarrow> Suc (iter h) = end_iter h \<Longrightarrow> helper_slice (h\<lparr>iter := Suc (iter h)\<rparr>) = []"
  by (simp add: helper_slice_def helper_ok_def)

lemma helper_instances_step:
  assumes "helper_ok h"
  shows "helper_instances h =
         \<lparr>info = msg_info h, index = vec h ! iter h\<rparr> # helper_instances (h\<lparr>iter := Suc (iter h)\<rparr>)"
  by (simp add: helper_instances_def helper_slice_step[OF assms])

lemma queue_instances_Cons:
  "queue_instances (h # q) = mset (helper_instances h) + queue_instances q"
  by (simp add: queue_instances_def)

lemma queue_instances_mset: "mset q = mset q' \<Longrightarrow> queue_instances q = queue_instances q'"
  by (simp add: queue_instances_def)

lemma view_step:
  assumes ok: "\<forall>h\<in>set (t # rest). helper_ok h"
  shows "\<exists>q'. dereference (t # rest) = Inr \<lparr>info = msg_info t, index = vec t ! iter t\<rparr> \<and>
          increment (t # rest) = Inr q' \<and> (\<forall>h\<in>set q'. helper_ok h) \<and>
          queue_instances (t # rest) =
            add_mset \<lparr>info = msg_info t, index = vec t ! iter t\<rparr> (queue_instances q') \<and>
          (Suc (iter t) = end_iter t \<longrightarrow> q' = rest) \<and>
          (Suc (iter t) \<noteq> end_iter t \<longrightarrow> queue_push (t\<lparr>iter := Suc (iter t)\<rparr>) rest = Inr q')"
proof -
  from ok have tok: "helper_ok t" and rok: "\<forall>h\<in>set rest. helper_ok h" by simp_all
  have d: "dereference (t # rest) = Inr \<lparr>info = msg_info t, index = vec t ! iter t\<rparr>"
    by (simp add: dereference_def deref_ok[OF tok])
  show ?thesis
  proof (cases "Suc (iter t) = end_iter t")
    case True
    have i: "increment (t # rest) = Inr rest" using True by (simp add: increment_def)
    have "helper_instances t = [\<lparr>info = msg_info t, index = vec t ! iter t\<rparr>]"
      using helper_instances_step[OF tok] helper_slice_done[OF tok True]
      by (simp add: helper_instances_def)
    then have "queue_instances (t # rest) =
               add_mset \<lparr>info = msg_info t, index = vec t ! iter t\<rparr> (queue_instances rest)"
      by (simp add: queue_instances_Cons)
    with d i rok True show ?thesis by simp
  next
    case False
    define t' where "t' = t\<lparr>iter := Suc (iter t)\<rparr>"
    have t'ok: "helper_ok t'" using tok False by (simp add: helper_ok_def t'_def)
    from queue_push_total[OF t'ok rok] obtain q' where p: "queue_push t' rest = Inr q'" by blast
    have i: "increment (t # rest) = Inr q'" using False p by (simp add: increment_def t'_def)
    have s: "set q' = insert t' (set rest)" using p by (rule queue_push_set)
    have ok': "\<forall>h\<in>set q'. helper_ok h" using s t'ok rok by simp
    have "mset q' = mset (t' # rest)" using queue_push_mset[OF p] by simp
    then have "queue_instances q' = queue_instances (t' # rest)" by (rule queue_instances_mset)
    then have "queue_instances (t # rest) =
               add_mset \<lparr>info = msg_info t, index = vec t ! iter t\<rparr> (queue_instances q')"
      using helper_instances_step[OF tok] by (simp add: queue_instances_Cons t'_def)
    with d i ok' False p show ?thesis by (simp add: t'_def)
  qed
qed

lemma view_iterate_instances:
  "(\<forall>h\<in>set q. helper_ok h) \<Longrightarrow>
     snd (view_iterate q) = None \<and> mset (fst (view_iterate q)) = queue_instances q"
proof (induction q rule: view_iterate.induct)
  case (1 q)
  show ?case
  proof (cases q)
    case Nil
    then show ?thesis by (subst (1 2) view_iterate.simps) (simp add: queue_instances_def)
  next
    case (Cons t rest)
    from view_step[of t rest] "1.prems" Cons obtain q' where
      d: "dereference q = Inr \<lparr>info = msg_info t, index = vec t ! iter t\<rparr>" and
      i: "increment q = Inr q'" and ok': "\<forall>h\<in>set q'. helper_ok h" and
      m: "queue_instances q = add_mset \<lparr>info = msg_info t, index = vec t ! iter t\<rparr> (queue_instances q')"
      by auto
    have ne: "q \<noteq> []" using Cons by simp
    from "1.IH"[OF ne d i ok'] have
      ih: "snd (view_iterate q') = None" "mset (fst (view_iterate q')) = queue_instances q'"
      by simp_all
    have "view_iterate q =
          (\<lparr>info = msg_info t, index = vec t ! iter t\<rparr> # fst (view_iterate q'), snd (view_iterate q'))"
      using ne d i by (subst view_iterate.simps) (simp add: case_prod_beta)
    with ih m show ?thesis by simp
  qed
qed

definition head_key :: "MergeHelper \<Rightarrow> nat" where
  "head_key h = time_key (time (vec h ! iter h))"

definition instance_key :: "MessageInstance \<Rightarrow> nat" where
  "instance_key m = time_key (getTime m)"

lemma queue_push_sorted:
  "queue_push h q = Inr q' \<Longrightarrow> helper_ok h \<Longrightarrow> \<forall>x\<in>set q. helper_ok x \<Longrightarrow>
     sorted (map head_key q) \<Longrightarrow> sorted (map head_key q')"
proof (induction q arbitrary: q')
  case Nil
  then show ?case by auto
next
  case (Cons x q)
  have dh: "deref h = Inr (vec h ! iter h)" using Cons.prems(2) by (rule deref_ok)
  have dx: "deref x = Inr (vec x ! iter x)" using Cons.prems(3) by (simp add: deref_ok)
  show ?case
  proof (cases "Time_less (time (vec h ! iter h)) (time (vec x ! iter x))")
    case True
    then have "q' = h # x # q" using Cons.prems(1) dh dx by simp
    moreover have "head_key h \<le> head_key x" using True by (simp add: head_key_def Time_less_key)
    ultimately show ?thesis using Cons.prems(4) by auto
  next
    case False
    then obtain q'' where p: "queue_push h q = Inr q''" and q': "q' = x # q''"
      using Cons.prems(1) dh dx by (auto split: sum.splits)
    have s: "sorted (map head_key q'')"
      using Cons.IH[OF p Cons.prems(2)] Cons.prems(3,4) by simp
    have "set q'' = insert h (set q)" using p by (rule queue_push_set)
    moreover have "head_key x \<le> head_key h" using False by (simp add: head_key_def Time_less_key)
    ultimately show ?thesis using s q' Cons.prems(4) by auto
  qed
qed

lemma in_queue_instances:
  "m \<in># queue_instances q \<Longrightarrow> \<exists>h\<in>set q. m \<in> set (helper_instances h)"
  by (auto simp: queue_instances_def)

lemma in_helper_instances:
  assumes "m \<in> set (helper_instances h)" "helper_ok h"
  shows "\<exists>i. iter h \<le> i \<and> i < end_iter h \<and> m = \<lparr>info = msg_info h, index = vec h ! i\<rparr>"
proof -
  from assms(1) obtain e where e: "e \<in> set (helper_slice h)" "m = \<lparr>info = msg_info h, index = e\<rparr>"
    by (auto simp: helper_instances_def)
  from e(1) obtain j where j: "j < length (helper_slice h)" "e = helper_slice h ! j"
    by (auto simp: in_set_conv_nth)
  have len: "length (helper_slice h) = end_iter h - iter h"
    using assms(2) by (simp add: helper_slice_def helper_ok_def)
  have "helper_slice h ! j = vec h ! (iter h + j)"
    using j(1) len assms(2) by (simp add: helper_slice_def helper_ok_def)
  with j len e(2) show ?thesis by (intro exI[of _ "iter h + j"]) simp
qed

lemma instance_ge_head:
  assumes "m \<in> set (helper_instances h)" "helper_ok h" "index_sorted (vec h)"
  shows "head_key h \<le> instance_key m"
proof -
  from in_helper_instances[OF assms(1,2)] obtain i where
    i: "iter h \<le> i" "i < end_iter h" "m = \<lparr>info = msg_info h, index = vec h ! i\<rparr>" by blast
  have "i < length (vec h)" using i(2) assms(2) by (simp add: helper_ok_def)
  from index_sorted_nth[OF assms(3) i(1) this] i(3)
  show ?thesis by (simp add: head_key_def instance_key_def getTime_def)
qed

lemma view_iterate_sorted:
  "(\<forall>h\<in>set q. helper_ok h \<and> index_sorted (vec h)) \<Longrightarrow> sorted (map head_key q) \<Longrightarrow>
     sorted (map instance_key (fst (view_iterate q)))"
proof (induction q rule: view_iterate.induct)
  case (1 q)
  show ?case
  proof (cases q)
    case Nil
    then show ?thesis by (subst view_iterate.simps) simp
  next
    case (Cons t rest)
    have okq: "\<forall>h\<in>set (t # rest). helper_ok h" using "1.prems"(1) Cons by simp
    from view_step[OF okq] Cons obtain q' where
      d: "dereference q = Inr \<lparr>info = msg_info t, index = vec t ! iter t\<rparr>" and
      i: "increment q = Inr q'" and ok': "\<forall>h\<in>set q'. helper_ok h" and
      e: "Suc (iter t) = end_iter t \<longrightarrow> q' = rest" and
      p: "Suc (iter t) \<noteq> end_iter t \<longrightarrow> queue_push (t\<lparr>iter := Suc (iter t)\<rparr>) rest = Inr q'"
      by auto
    have ne: "q \<noteq> []" using Cons by simp
    have tok: "helper_ok t" and ts: "index_sorted (vec t)" using "1.prems"(1) Cons by simp_all
    have rs: "sorted (map head_key rest)" and rge: "\<forall>h\<in>set rest. head_key t \<le> head_key h"
      using "1.prems"(2) Cons by simp_all
    have q'props: "(\<forall>h\<in>set q'. index_sorted (vec h)) \<and> sorted (map head_key q') \<and>
                   (\<forall>h\<in>set q'. head_key t \<le> head_key h)"
    proof (cases "Suc (iter t) = end_iter t")
      case True
      with e have "q' = rest" by simp
      with rs rge "1.prems"(1) Cons show ?thesis by simp
    next
      case False
      define t' where "t' = t\<lparr>iter := Suc (iter t)\<rparr>"
      from False p have pp: "queue_push t' rest = Inr q'" by (simp add: t'_def)
      have t'ok: "helper_ok t'" using tok False by (simp add: helper_ok_def t'_def)
      have rok: "\<forall>x\<in>set rest. helper_ok x" using okq by simp
      have s: "set q' = insert t' (set rest)" using pp by (rule queue_push_set)
      have "Suc (iter t) < length (vec t)" using t'ok by (simp add: helper_ok_def t'_def)
      then have "time_key (time (vec t ! iter t)) \<le> time_key (time (vec t ! Suc (iter t)))"
        using index_sorted_nth[OF ts, of "iter t" "Suc (iter t)"] by simp
      then have "head_key t \<le> head_key t'" by (simp add: head_key_def t'_def)
      moreover have "index_sorted (vec t')" using ts by (simp add: t'_def)
      ultimately show ?thesis
        using s rge "1.prems"(1) Cons queue_push_sorted[OF pp t'ok rok rs] by auto
    qed
    then have pre: "\<forall>h\<in>set q'. helper_ok h \<and> index_sorted (vec h)" using ok' by blast
    from q'props have sq': "sorted (map head_key q')" by blast
    from "1.IH"[OF ne d i pre sq'] have ih: "sorted (map instance_key (fst (view_iterate q')))" .
    have all_ge: "\<forall>m\<in>set (fst (view_iterate q')). head_key t \<le> instance_key m"
    proof
      fix m assume "m \<in> set (fst (view_iterate q'))"
      then have "m \<in># mset (fst (view_iterate q'))" by simp
      then have "m \<in># queue_instances q'" using view_iterate_instances[OF ok'] by simp
      from in_queue_instances[OF this] obtain h where h: "h \<in> set q'" "m \<in> set (helper_instances h)"
        by blast
      from h(1) ok' q'props have "helper_ok h" "index_sorted (vec h)" "head_key t \<le> head_key h"
        by blast+
      with instance_ge_head[OF h(2)] show "head_key t \<le> instance_key m" by simp
    qed
    have "view_iterate q =
          (\<lparr>info = msg_info t, index = vec t ! iter t\<rparr> # fst (view_iterate q'), snd (view_iterate q'))"
      using ne d i by (subst view_iterate.simps) (simp add: case_prod_beta)
    moreover have "instance_key \<lparr>info = msg_info t, index = vec t ! iter t\<rparr> = head_key t"
      by (simp add: instance_key_def head_key_def getTime_def)
    ultimately show ?thesis using ih all_ge by simp
  qed
qed










subsection \<open>C2: the time filter of a view\<close>



lemma Time_less_at_sec [simp]: "Time_less (at_sec a) (at_sec b) \<longleftrightarrow> a < b"
  by (simp add: Time_less_def at_sec_def)

lemma Time_le_at_sec [simp]: "Time_le (at_sec a) (at_sec b) \<longleftrightarrow> a \<le> b"
  by (simp add: Time_le_def not_less)

lemma time_entry_at [simp]: "time (entry_at n p) = at_sec n"
  by (simp add: entry_at_def)
























subsection \<open>The writer: what reaches the file\<close>

text \<open>
  The writer only appends, except for the file header that \<^verbatim>\<open>close\<close> writes again in its
  place. \<open>appending b\<close> is the state of a healthy stream between two records: the put
  position is the end of the file, and \<open>record_pos\<close> (the writer's own count of bytes)
  agrees with it.
\<close>

definition appending :: "Bag \<Rightarrow> bool" where
  "appending b =
     (o_is_open (write_stream b) \<and> \<not> o_fail (write_stream b) \<and>
      o_put (write_stream b) = length (o_bytes (write_stream b)) \<and>
      unat (record_pos b) = length (o_bytes (write_stream b)) \<and>
      length (o_bytes (write_stream b)) \<le> o_room (write_stream b) \<and>
      o_room (write_stream b) < 2 ^ 64)"

definition has_room :: "nat \<Rightarrow> Bag \<Rightarrow> bool" where
  "has_room n b = (length (o_bytes (write_stream b)) + n \<le> o_room (write_stream b))"

definition ws_append :: "string \<Rightarrow> ofstream \<Rightarrow> ofstream" where
  "ws_append s os = os\<lparr>o_bytes := o_bytes os @ s, o_put := o_put os + length s\<rparr>"

text \<open>The outcome of a sequence of writes of the bytes \<open>s\<close> that took \<open>b\<close> to \<open>b'\<close>: all of
  \<open>s\<close> was appended, or (the device had no room) the stream has failed.\<close>

definition wrote :: "string \<Rightarrow> Bag \<Rightarrow> Bag \<Rightarrow> bool" where
  "wrote s b b' =
     (if has_room (length s) b
      then write_stream b' = ws_append s (write_stream b) \<and>
           record_pos b' = record_pos b + word_of_nat (length s)
      else o_fail (write_stream b'))"

lemma put_at_end [simp]: "put_at (length bytes) s bytes = bytes @ s"
  by (simp add: put_at_def)

lemma writefil_fail_sticky:
  "o_fail (write_stream b) \<Longrightarrow> o_fail (write_stream (writefil s b))"
  by (simp add: writefil_def ofstream_write_def)

text \<open>A stream that takes no more bytes: never opened, or failed.\<close>

definition dead :: "Bag \<Rightarrow> bool" where
  "dead b = (\<not> o_is_open (write_stream b) \<or> o_fail (write_stream b))"

lemma writefil_dead: "dead b \<Longrightarrow> o_fail (write_stream (writefil s b))"
  by (auto simp add: dead_def writefil_def ofstream_write_def)

lemma writefil_dead_bytes:
  "dead b \<Longrightarrow> o_bytes (write_stream (writefil s b)) = o_bytes (write_stream b)"
  by (auto simp add: dead_def writefil_def ofstream_write_def)

lemma fail_dead: "o_fail (write_stream b) \<Longrightarrow> dead b"
  by (simp add: dead_def)

lemma wrote_writefil: "appending b \<Longrightarrow> wrote s b (writefil s b)"
  by (simp add: wrote_def writefil_def appending_def has_room_def ofstream_write_def
      ws_append_def)

lemma wrote_Nil: "appending b \<Longrightarrow> wrote [] b b"
  by (simp add: wrote_def ws_append_def has_room_def appending_def)

lemma unat_pos_add:
  assumes "unat (p :: 64 word) + n < 2 ^ 64"
  shows "unat (p + word_of_nat n) = unat p + n"
proof -
  have "n < 2 ^ 64" using assms by simp
  then have u: "unat (word_of_nat n :: 64 word) = n" by (simp add: unat_of_nat)
  have "unat p + unat (word_of_nat n :: 64 word) < 2 ^ 64" using assms u by simp
  then have "unat (p + word_of_nat n) = unat p + unat (word_of_nat n :: 64 word)"
    using unat_add_lem[of p "word_of_nat n"] by simp
  with u show ?thesis by simp
qed

lemma wrote_appending:
  assumes "appending b" "wrote s b b'" "has_room (length s) b"
  shows "appending b'"
    and "o_bytes (write_stream b') = o_bytes (write_stream b) @ s"
    and "o_room (write_stream b') = o_room (write_stream b)"
    and "unat (record_pos b') = unat (record_pos b) + length s"
proof -
  have ws: "write_stream b' = ws_append s (write_stream b)"
    and rp: "record_pos b' = record_pos b + word_of_nat (length s)"
    using assms(2,3) by (simp_all add: wrote_def)
  have lt: "unat (record_pos b) + length s < 2 ^ 64"
    using assms(1,3) by (simp add: appending_def has_room_def)
  from unat_pos_add[OF lt] rp show u: "unat (record_pos b') = unat (record_pos b) + length s"
    by simp
  show "o_bytes (write_stream b') = o_bytes (write_stream b) @ s" by (simp add: ws ws_append_def)
  show "o_room (write_stream b') = o_room (write_stream b)" by (simp add: ws ws_append_def)
  show "appending b'" using assms(1,3) u by (simp add: appending_def has_room_def ws ws_append_def)
qed

lemma wrote_then:
  assumes a: "appending b" and w: "wrote s1 b b1"
    and step: "appending b1 \<Longrightarrow> wrote s2 b1 b2"
    and sticky: "o_fail (write_stream b1) \<Longrightarrow> o_fail (write_stream b2)"
  shows "wrote (s1 @ s2) b b2"
proof (cases "has_room (length s1) b")
  case True
  note p = wrote_appending[OF a w True]
  have hr: "has_room (length s2) b1 = has_room (length (s1 @ s2)) b"
    by (simp add: has_room_def p(2,3) add.assoc)
  have ws: "write_stream b1 = ws_append s1 (write_stream b)"
    and rp: "record_pos b1 = record_pos b + word_of_nat (length s1)"
    using w True by (simp_all add: wrote_def)
  from step[OF p(1)] show ?thesis
    unfolding wrote_def hr by (simp add: ws rp ws_append_def add.assoc)
next
  case False
  with w have "o_fail (write_stream b1)" by (simp add: wrote_def)
  then have "o_fail (write_stream b2)" by (rule sticky)
  moreover have "\<not> has_room (length (s1 @ s2)) b" using False by (auto simp: has_room_def)
  ultimately show ?thesis by (simp add: wrote_def)
qed

lemma wrote_cong:
  "wrote s b b' \<Longrightarrow> write_stream b0 = write_stream b \<Longrightarrow> record_pos b0 = record_pos b \<Longrightarrow>
     wrote s b0 b'"
  by (simp add: wrote_def has_room_def)

lemma appending_cong:
  "appending b \<Longrightarrow> write_stream b0 = write_stream b \<Longrightarrow> record_pos b0 = record_pos b \<Longrightarrow>
     appending b0"
  by (simp add: appending_def)

lemma writefil_fields [simp]:
  "topic_indexes (writefil s b) = topic_indexes b"
  "topics_recorded (writefil s b) = topics_recorded b"
  "file_header_pos (writefil s b) = file_header_pos b"
  "index_data_pos (writefil s b) = index_data_pos b"
  "writing_enabled (writefil s b) = writing_enabled b"
  "indet (writefil s b) = indet b"
  "read_stream (writefil s b) = read_stream b"
  by (simp_all add: writefil_def)

definition header_bytes :: "M_string \<Rightarrow> 32 word \<Rightarrow> string" where
  "header_bytes flds data_len =
     u32_bytes (word_of_nat (length (Header_write flds))) @
     take (unat (word_of_nat (length (Header_write flds)) :: 32 word)) (Header_write flds) @
     u32_bytes data_len"

lemma writeHeader_sticky:
  "o_fail (write_stream b) \<Longrightarrow> o_fail (write_stream (writeHeader flds dl b))"
  by (simp add: writeHeader_def Let_def writefil_fail_sticky)

lemma writeHeader_dead:
  "dead b \<Longrightarrow> o_fail (write_stream (writeHeader flds dl b))"
  by (simp add: writeHeader_def Let_def writefil_fail_sticky writefil_dead)

lemma writeHeader_dead_bytes:
  "dead b \<Longrightarrow> o_bytes (write_stream (writeHeader flds dl b)) = o_bytes (write_stream b)"
  by (simp add: writeHeader_def Let_def writefil_dead_bytes writefil_dead fail_dead)

lemma writeHeader_fields [simp]:
  "topic_indexes (writeHeader flds dl b) = topic_indexes b"
  "topics_recorded (writeHeader flds dl b) = topics_recorded b"
  "file_header_pos (writeHeader flds dl b) = file_header_pos b"
  "index_data_pos (writeHeader flds dl b) = index_data_pos b"
  "writing_enabled (writeHeader flds dl b) = writing_enabled b"
  "indet (writeHeader flds dl b) = indet b"
  "read_stream (writeHeader flds dl b) = read_stream b"
  by (simp_all add: writeHeader_def Let_def)

lemma wrote_writeHeader:
  assumes "appending b"
  shows "wrote (header_bytes flds dl) b (writeHeader flds dl b)"
proof -
  define H where "H = Header_write flds"
  define hl where "hl = (word_of_nat (length H) :: 32 word)"
  define b1 where "b1 = writefil (u32_bytes hl) b"
  define b2 where "b2 = writefil (take (unat hl) H) b1"
  have w1: "wrote (u32_bytes hl) b b1" unfolding b1_def using assms by (rule wrote_writefil)
  have w2: "wrote (u32_bytes hl @ take (unat hl) H) b b2"
    using assms w1 unfolding b2_def
    by (rule wrote_then) (simp_all add: wrote_writefil writefil_fail_sticky)
  have w3: "wrote ((u32_bytes hl @ take (unat hl) H) @ u32_bytes dl) b (writefil (u32_bytes dl) b2)"
    using assms w2
    by (rule wrote_then) (simp_all add: wrote_writefil writefil_fail_sticky)
  then show ?thesis
    by (simp add: header_bytes_def writeHeader_def Let_def H_def hl_def b1_def b2_def)
qed

lemma writeRecord_sticky:
  "o_fail (write_stream b) \<Longrightarrow> o_fail (write_stream (writeRecord flds d dl b))"
  by (simp add: writeRecord_def writefil_fail_sticky writeHeader_sticky)

lemma writeRecord_dead:
  "dead b \<Longrightarrow> o_fail (write_stream (writeRecord flds d dl b))"
  by (simp add: writeRecord_def writefil_fail_sticky writeHeader_dead)

lemma writeRecord_dead_bytes:
  "dead b \<Longrightarrow> o_bytes (write_stream (writeRecord flds d dl b)) = o_bytes (write_stream b)"
  by (simp add: writeRecord_def writefil_dead_bytes writeHeader_dead writeHeader_dead_bytes
      fail_dead)

lemma writeRecord_fields [simp]:
  "topic_indexes (writeRecord flds d dl b) = topic_indexes b"
  "topics_recorded (writeRecord flds d dl b) = topics_recorded b"
  "file_header_pos (writeRecord flds d dl b) = file_header_pos b"
  "index_data_pos (writeRecord flds d dl b) = index_data_pos b"
  "writing_enabled (writeRecord flds d dl b) = writing_enabled b"
  "indet (writeRecord flds d dl b) = indet b"
  "read_stream (writeRecord flds d dl b) = read_stream b"
  by (simp_all add: writeRecord_def)

lemma wrote_writeRecord:
  assumes "appending b"
  shows "wrote (header_bytes flds dl @ take (unat dl) d) b (writeRecord flds d dl b)"
  unfolding writeRecord_def
  using assms wrote_writeHeader[OF assms]
  by (rule wrote_then) (simp_all add: wrote_writefil writefil_fail_sticky)

lemma grow_size_Some:
  assumes "unat len \<le> 2 ^ 31"
  shows "\<exists>sz. grow_size s len = Some sz"
proof (cases "s = 0")
  case True
  then show ?thesis by (simp add: grow_size_def)
next
  case False
  have step: "\<And>x :: 32 word. 0 < x \<Longrightarrow> x < len \<Longrightarrow> 0 < x * 2 \<and> 2 ^ 32 - unat (x * 2) < 2 ^ 32 - unat x"
  proof -
    fix x :: "32 word" assume x: "0 < x" "x < len"
    have lt: "unat x < 2 ^ 31" using x(2) assms by (simp add: word_less_nat_alt)
    have pos: "0 < unat x" using x(1) by (simp add: word_less_nat_alt)
    have "unat x * unat (2 :: 32 word) < 2 ^ LENGTH(32)" using lt by simp
    then have m: "unat (x * 2) = unat x * 2" using unat_mult_lem[of x 2] by simp
    have "0 < unat (x * 2)" using m pos by simp
    then have "0 < x * 2" by (simp add: word_less_nat_alt)
    moreover have "2 ^ 32 - unat (x * 2) < 2 ^ 32 - unat x" using m pos lt by simp
    ultimately show "0 < x * 2 \<and> 2 ^ 32 - unat (x * 2) < 2 ^ 32 - unat x" by simp
  qed
  have "0 < s" using False by (simp add: word_neq_0_conv)
  from measure_while_option_Some[where P = "\<lambda>x. 0 < x" and b = "\<lambda>x. x < len"
      and c = "\<lambda>x. x * 2" and f = "\<lambda>x. 2 ^ 32 - unat x", OF step this]
  show ?thesis using False by (simp add: grow_size_def)
qed

text \<open>The stages of \<^verbatim>\<open>Bag::write\<close> on a bag that is enabled.\<close>

definition new_info :: "string \<Rightarrow> Message \<Rightarrow> MsgInfo" where
  "new_info topic_name msg =
     \<lparr>topic = topic_name, msg_def = getMessageDefinition msg, md5sum = getMD5Sum msg,
      data_type = getDataType msg\<rparr>"

definition info_for :: "string \<Rightarrow> Message \<Rightarrow> Bag \<Rightarrow> MsgInfo" where
  "info_for topic_name msg b =
     (case map_of (topics_recorded b) topic_name of
        None \<Rightarrow> new_info topic_name msg
      | Some mi \<Rightarrow> mi)"

definition index_for :: "string \<Rightarrow> Bag \<Rightarrow> IndexEntry list" where
  "index_for topic_name b =
     (case map_of (topics_recorded b) topic_name of
        None \<Rightarrow> []
      | Some mi \<Rightarrow> (case map_of (topic_indexes b) topic_name of None \<Rightarrow> [] | Some ix \<Rightarrow> ix))"

definition write_bytes :: "string \<Rightarrow> Time \<Rightarrow> Message \<Rightarrow> Bag \<Rightarrow> string" where
  "write_bytes topic_name t msg b =
     (if map_of (topics_recorded b) topic_name = None
      then header_bytes (def_header topic_name (info_for topic_name msg b)) 0 else []) @
     header_bytes
       (data_header topic_name (info_for topic_name msg b) t (latching_of msg) (callerid_of msg))
       (serializationLength msg) @
     take (unat (serializationLength msg)) (serialized msg)"

lemma map_of_map_assign [simp]: "map_of (map_assign k v m) = (map_of m)(k \<mapsto> v)"
proof (induction m)
  case Nil
  show ?case by simp
next
  case (Cons a m)
  obtain k' v' where a: "a = (k', v')" by (cases a)
  show ?case unfolding a using Cons by (auto simp: fun_eq_iff)
qed

lemma checkDisk_fields [simp]:
  "write_stream (snd (checkDisk w b)) = write_stream b"
  "record_pos (snd (checkDisk w b)) = record_pos b"
  "topic_indexes (snd (checkDisk w b)) = topic_indexes b"
  "topics_recorded (snd (checkDisk w b)) = topics_recorded b"
  "file_header_pos (snd (checkDisk w b)) = file_header_pos b"
  "index_data_pos (snd (checkDisk w b)) = index_data_pos b"
  "indet (snd (checkDisk w b)) = indet b"
  "message_buf (snd (checkDisk w b)) = message_buf b"
  "message_buf_size (snd (checkDisk w b)) = message_buf_size b"
  "read_stream (snd (checkDisk w b)) = read_stream b"
  by (simp_all add: checkDisk_def Let_def split: option.splits prod.splits)

definition disk_ok :: "World \<Rightarrow> bool" where
  "disk_ok w =
     (case fs_statvfs w of
        None \<Rightarrow> True
      | Some (f_bsize, f_bavail) \<Rightarrow> \<not> f_bsize * f_bavail < 1073741824)"

lemma checkDisk_enabled:
  "disk_ok w \<Longrightarrow> writing_enabled b \<Longrightarrow> writing_enabled (snd (checkDisk w b))"
  by (auto simp: checkDisk_def disk_ok_def Let_def split: option.splits prod.splits)

lemma Bag_write_cases:
  assumes en: "writing_enabled b"
  shows "(message_buf_size b < serializationLength msg \<and>
          grow_size (message_buf_size b) (serializationLength msg) = None \<and>
          Bag_write w topic_name t msg b = Inl Diverges) \<or>
         (\<exists>b'. Bag_write w topic_name t msg b = Inr b' \<and>
           (appending b \<longrightarrow> wrote (write_bytes topic_name t msg b) b b') \<and>
           (o_fail (write_stream b) \<longrightarrow> o_fail (write_stream b')) \<and>
           (dead b \<longrightarrow>
              o_fail (write_stream b') \<and>
              o_bytes (write_stream b') = o_bytes (write_stream b)) \<and>
           topics_recorded b' =
             (if map_of (topics_recorded b) topic_name = None
              then map_assign topic_name (new_info topic_name msg) (topics_recorded b)
              else topics_recorded b) \<and>
           topic_indexes b' =
             map_assign topic_name
               (index_for topic_name b @ [\<lparr>time = t, pos = record_pos b\<rparr>])
               (if map_of (topics_recorded b) topic_name = None
                then map_assign topic_name [] (topic_indexes b) else topic_indexes b) \<and>
           file_header_pos b' = file_header_pos b \<and>
           index_data_pos b' = index_data_pos b \<and>
           indet b' = indet b \<and>
           read_stream b' = read_stream b \<and>
           (disk_ok w \<longrightarrow> writing_enabled b'))"
proof -
  define nd where "nd = (map_of (topics_recorded b) topic_name = None)"
  define b1 where "b1 = (if nd
                   then b\<lparr>topics_recorded :=
                            map_assign topic_name
                              \<lparr>topic = topic_name, msg_def = getMessageDefinition msg,
                               md5sum = getMD5Sum msg, data_type = getDataType msg\<rparr>
                              (topics_recorded b),
                          topic_indexes := map_assign topic_name [] (topic_indexes b)\<rparr>
                   else b)"
  define mi where "mi = (case map_of (topics_recorded b1) topic_name of
                           Some mi \<Rightarrow> mi
                         | None \<Rightarrow> \<lparr>topic = [], msg_def = [], md5sum = [], data_type = []\<rparr>)"
  define b2 where "b2 = (if check_disk_next b1 < wall_now w
                   then snd (checkDisk w (b1\<lparr>check_disk_next := check_disk_next b1 + seconds 20\<rparr>))
                   else b1)"
  define b3 where "b3 = b2\<lparr>topic_indexes :=
                       map_assign topic_name
                         ((case map_of (topic_indexes b2) topic_name of
                             None \<Rightarrow> [] | Some ix \<Rightarrow> ix) @ [\<lparr>time = t, pos = record_pos b2\<rparr>])
                         (topic_indexes b2)\<rparr>"
  define b4 where "b4 = (if nd then writeHeader (def_header topic_name mi) 0 b3 else b3)"
  define len where "len = serializationLength msg"
  have mi_eq: "mi = info_for topic_name msg b"
    by (auto simp: mi_def b1_def nd_def info_for_def new_info_def split: option.splits)
  have ws2: "write_stream b2 = write_stream b" "record_pos b2 = record_pos b"
    by (simp_all add: b2_def b1_def)
  have ws3: "write_stream b3 = write_stream b" "record_pos b3 = record_pos b"
    by (simp_all add: b3_def ws2)
  have ix2: "(case map_of (topic_indexes b2) topic_name of None \<Rightarrow> [] | Some ix \<Rightarrow> ix) =
             index_for topic_name b"
    by (auto simp: b2_def b1_def nd_def index_for_def split: option.splits)
  have ti3: "topic_indexes b3 = map_assign topic_name
               (index_for topic_name b @ [\<lparr>time = t, pos = record_pos b\<rparr>])
               (if nd then map_assign topic_name [] (topic_indexes b) else topic_indexes b)"
    unfolding b3_def by (simp add: ix2 ws2) (simp add: b2_def b1_def)
  have tr3: "topics_recorded b3 =
             (if nd then map_assign topic_name (new_info topic_name msg) (topics_recorded b)
              else topics_recorded b)"
    by (simp add: b3_def b2_def b1_def new_info_def)
  have fr3: "file_header_pos b3 = file_header_pos b" "index_data_pos b3 = index_data_pos b"
      "indet b3 = indet b" "read_stream b3 = read_stream b"
    by (simp_all add: b3_def b2_def b1_def)
  have mb3: "message_buf_size b3 = message_buf_size b"
    by (simp add: b3_def b2_def b1_def)
  have en3: "disk_ok w \<longrightarrow> writing_enabled b3"
    using en by (auto simp: b3_def b2_def b1_def intro!: checkDisk_enabled)
  have st4: "o_fail (write_stream b3) \<Longrightarrow> o_fail (write_stream b4)"
    by (simp add: b4_def writeHeader_sticky)
  have fr4: "topic_indexes b4 = topic_indexes b3" "topics_recorded b4 = topics_recorded b3"
      "file_header_pos b4 = file_header_pos b3" "index_data_pos b4 = index_data_pos b3"
      "indet b4 = indet b3" "read_stream b4 = read_stream b3" "writing_enabled b4 = writing_enabled b3"
    by (simp_all add: b4_def)
  have mb4: "message_buf_size b4 = message_buf_size b"
    by (simp add: b4_def mb3 writeHeader_def writefil_def Let_def)
  define g where "g = (if message_buf_size b4 < len
                then map_option
                       (\<lambda>sz. b4\<lparr>message_buf_size := sz,
                                 message_buf := fill (unat sz) (indet b4) (message_buf b4)\<rparr>)
                       (grow_size (message_buf_size b4) len)
                else Some b4)"
  have unfold: "Bag_write w topic_name t msg b =
      (case g of
         None \<Rightarrow> Inl Diverges
       | Some b5 \<Rightarrow>
           Inr (writeRecord (data_header topic_name mi t (latching_of msg) (callerid_of msg))
                  (message_buf (b5\<lparr>message_buf :=
                             serialized msg @ drop (length (serialized msg)) (message_buf b5)\<rparr>))
                  len
                  (b5\<lparr>message_buf :=
                             serialized msg @ drop (length (serialized msg)) (message_buf b5)\<rparr>)))"
    unfolding Bag_write_def Let_def
    apply (simp only: en not_True_eq_False if_False)
    apply (simp only: nd_def[symmetric])
    apply (simp only: b1_def[symmetric])
    apply (simp only: mi_def[symmetric])
    apply (simp only: b2_def[symmetric])
    apply (simp only: b3_def[symmetric])
    apply (simp only: b4_def[symmetric])
    apply (simp only: len_def[symmetric])
    apply (simp only: g_def[symmetric])
    done
  show ?thesis
  proof (cases g)
    case None
    then have "message_buf_size b < len \<and> grow_size (message_buf_size b) len = None"
      by (auto simp: g_def mb4 split: if_splits)
    moreover have "Bag_write w topic_name t msg b = Inl Diverges"
      by (simp add: unfold None)
    ultimately show ?thesis by (simp add: len_def)
  next
    case (Some b5)
    define b6 where "b6 = b5\<lparr>message_buf :=
                             serialized msg @ drop (length (serialized msg)) (message_buf b5)\<rparr>"
    define b7 where "b7 = writeRecord (data_header topic_name mi t (latching_of msg) (callerid_of msg))
                      (message_buf b6) len b6"
    have res: "Bag_write w topic_name t msg b = Inr b7"
      by (simp add: unfold Some b7_def b6_def)
    have b5: "b5 = b4 \<or> (\<exists>sz. b5 = b4\<lparr>message_buf_size := sz,
                                 message_buf := fill (unat sz) (indet b4) (message_buf b4)\<rparr>)"
      using Some by (auto simp: g_def split: if_splits)
    have ws6: "write_stream b6 = write_stream b4" "record_pos b6 = record_pos b4"
      using b5 by (auto simp: b6_def)
    have fr6: "topic_indexes b6 = topic_indexes b4" "topics_recorded b6 = topics_recorded b4"
      "file_header_pos b6 = file_header_pos b4" "index_data_pos b6 = index_data_pos b4"
      "indet b6 = indet b4" "read_stream b6 = read_stream b4" "writing_enabled b6 = writing_enabled b4"
      using b5 by (auto simp: b6_def)
    have tk: "take (unat len) (message_buf b6) = take (unat len) (serialized msg)"
    proof -
      have "unat len \<le> length (serialized msg)"
        by (simp add: len_def serializationLength_def unat_of_nat)
      then show ?thesis by (simp add: b6_def)
    qed
    have st7: "o_fail (write_stream b4) \<Longrightarrow> o_fail (write_stream b7)"
      using ws6 by (simp add: b7_def writeRecord_sticky)
    have wr: "appending b \<longrightarrow> wrote (write_bytes topic_name t msg b) b b7"
    proof
      assume ap: "appending b"
      have ap3: "appending b3" using ap ws3 by (rule appending_cong)
      have w4: "wrote (if nd then header_bytes (def_header topic_name mi) 0 else []) b3 b4"
        using ap3 by (simp add: b4_def wrote_writeHeader wrote_Nil)
      have w7: "appending b6 \<Longrightarrow>
         wrote (header_bytes (data_header topic_name mi t (latching_of msg) (callerid_of msg)) len @
                take (unat len) (serialized msg)) b6 b7"
        unfolding b7_def using wrote_writeRecord[of b6 _ len "message_buf b6"] by (simp add: tk)
      have w7': "appending b4 \<Longrightarrow>
         wrote (header_bytes (data_header topic_name mi t (latching_of msg) (callerid_of msg)) len @
                take (unat len) (serialized msg)) b4 b7"
        using w7 ws6 by (metis appending_cong wrote_cong)
      have "wrote ((if nd then header_bytes (def_header topic_name mi) 0 else []) @
                   header_bytes (data_header topic_name mi t (latching_of msg) (callerid_of msg)) len @
                   take (unat len) (serialized msg)) b3 b7"
        using ap3 w4 w7' st7 by (rule wrote_then)
      moreover have "(if nd then header_bytes (def_header topic_name mi) 0 else []) @
                   header_bytes (data_header topic_name mi t (latching_of msg) (callerid_of msg)) len @
                   take (unat len) (serialized msg) = write_bytes topic_name t msg b"
        by (simp only: write_bytes_def nd_def mi_eq len_def)
      ultimately have "wrote (write_bytes topic_name t msg b) b3 b7" by simp
      then show "wrote (write_bytes topic_name t msg b) b b7"
        using ws3[symmetric] by (rule wrote_cong)
    qed
    have fr7: "topic_indexes b7 = topic_indexes b3" "topics_recorded b7 = topics_recorded b3"
        "file_header_pos b7 = file_header_pos b3" "index_data_pos b7 = index_data_pos b3"
        "indet b7 = indet b3" "read_stream b7 = read_stream b3" "writing_enabled b7 = writing_enabled b3"
      by (simp_all add: b7_def fr6 fr4)
    have st: "o_fail (write_stream b) \<longrightarrow> o_fail (write_stream b7)"
      using st4 st7 ws3 by simp
    have dd: "dead b \<longrightarrow>
        o_fail (write_stream b7) \<and> o_bytes (write_stream b7) = o_bytes (write_stream b)"
    proof
      assume d: "dead b"
      then have d3: "dead b3" using ws3 by (simp add: dead_def)
      have d4: "dead b4" using d3 by (auto simp: b4_def intro: fail_dead writeHeader_dead)
      have y4: "o_bytes (write_stream b4) = o_bytes (write_stream b)"
        using d3 ws3 by (simp add: b4_def writeHeader_dead_bytes)
      have d6: "dead b6" using d4 ws6 by (simp add: dead_def)
      show "o_fail (write_stream b7) \<and> o_bytes (write_stream b7) = o_bytes (write_stream b)"
        using d6 y4 ws6 by (simp add: b7_def writeRecord_dead writeRecord_dead_bytes)
    qed
    have "\<exists>b'. Bag_write w topic_name t msg b = Inr b' \<and>
           (appending b \<longrightarrow> wrote (write_bytes topic_name t msg b) b b') \<and>
           (o_fail (write_stream b) \<longrightarrow> o_fail (write_stream b')) \<and>
           (dead b \<longrightarrow>
              o_fail (write_stream b') \<and>
              o_bytes (write_stream b') = o_bytes (write_stream b)) \<and>
           topics_recorded b' =
             (if map_of (topics_recorded b) topic_name = None
              then map_assign topic_name (new_info topic_name msg) (topics_recorded b)
              else topics_recorded b) \<and>
           topic_indexes b' =
             map_assign topic_name
               (index_for topic_name b @ [\<lparr>time = t, pos = record_pos b\<rparr>])
               (if map_of (topics_recorded b) topic_name = None
                then map_assign topic_name [] (topic_indexes b) else topic_indexes b) \<and>
           file_header_pos b' = file_header_pos b \<and>
           index_data_pos b' = index_data_pos b \<and>
           indet b' = indet b \<and>
           read_stream b' = read_stream b \<and>
           (disk_ok w \<longrightarrow> writing_enabled b')"
      using res wr st dd ti3 tr3 fr3 en3 unfolding fr7[symmetric] nd_def by blast
    then show ?thesis by blast
  qed
qed

lemma Bag_write_small:
  assumes "writing_enabled b" "length (serialized msg) \<le> 2 ^ 31"
  shows "\<exists>b'. Bag_write w topic_name t msg b = Inr b'"
proof -
  have "unat (serializationLength msg) \<le> 2 ^ 31"
    using assms(2) by (simp add: serializationLength_def unat_of_nat)
  from grow_size_Some[OF this, of "message_buf_size b"]
  have "grow_size (message_buf_size b) (serializationLength msg) \<noteq> None" by auto
  with Bag_write_cases[OF assms(1), of msg w topic_name t] show ?thesis by blast
qed

definition version_line :: string where
  "version_line = ''#ROSRECORD V'' @ VERSION @ [CHR 0x0A]"

definition file_header_fields :: "64 word \<Rightarrow> M_string" where
  "file_header_fields ip =
     map_assign INDEX_POS_FIELD_NAME (u64_bytes ip)
       (map_assign OP_FIELD_NAME (u8_bytes OP_FILE_HEADER) [])"

definition file_header_bytes :: "64 word \<Rightarrow> string" where
  "file_header_bytes ip =
     (let header_buffer = Header_write (file_header_fields ip);
          header_len = (word_of_nat (length header_buffer) :: 32 word);
          data_len = (if header_len < FILE_HEADER_LENGTH then FILE_HEADER_LENGTH - header_len
                      else 0) in
      u32_bytes header_len @ take (unat header_len) header_buffer @ u32_bytes data_len @
      (if 0 < data_len then replicate (unat data_len) CHR '' '' else []))"

lemma file_header_fields_eq:
  "file_header_fields ip = [(''index_pos'', u64_bytes ip), (''op'', u8_bytes OP_FILE_HEADER)]"
  by (simp add: file_header_fields_def INDEX_POS_FIELD_NAME_def OP_FIELD_NAME_def)

lemma length_file_header_write: "length (Header_write (file_header_fields ip)) = 30"
  by (simp add: file_header_fields_eq)

lemma file_header_bytes_eq:
  "file_header_bytes ip =
     u32_bytes 30 @ Header_write (file_header_fields ip) @ u32_bytes 4066 @
     replicate 4066 CHR '' ''"
  by (simp add: file_header_bytes_def length_file_header_write FILE_HEADER_LENGTH_def Let_def)

lemma length_file_header_bytes [simp]: "length (file_header_bytes ip) = 4104"
  by (simp add: file_header_bytes_eq length_file_header_write)

lemma length_version_line [simp]: "length version_line = 16"
  by (simp add: version_line_def VERSION_def)

lemma writeFileHeader_sticky:
  "o_fail (write_stream b) \<Longrightarrow> o_fail (write_stream (writeFileHeader b))"
  by (simp add: writeFileHeader_def Let_def writefil_fail_sticky)

lemma writeFileHeader_fields [simp]:
  "topic_indexes (writeFileHeader b) = topic_indexes b"
  "topics_recorded (writeFileHeader b) = topics_recorded b"
  "file_header_pos (writeFileHeader b) = record_pos b"
  "index_data_pos (writeFileHeader b) = index_data_pos b"
  "writing_enabled (writeFileHeader b) = writing_enabled b"
  "indet (writeFileHeader b) = indet b"
  "read_stream (writeFileHeader b) = read_stream b"
  by (simp_all add: writeFileHeader_def Let_def)

text \<open>One write of \<open>s\<close> at the put position, wherever that is: the bytes there are replaced.\<close>

definition overwrote :: "string \<Rightarrow> Bag \<Rightarrow> Bag \<Rightarrow> bool" where
  "overwrote s b b' =
     (write_stream b' =
        (write_stream b)\<lparr>o_bytes := put_at (o_put (write_stream b)) s (o_bytes (write_stream b)),
                          o_put := o_put (write_stream b) + length s\<rparr> \<and>
      record_pos b' = record_pos b + word_of_nat (length s))"

definition can_put :: "nat \<Rightarrow> Bag \<Rightarrow> bool" where
  "can_put n b =
     (o_is_open (write_stream b) \<and> \<not> o_fail (write_stream b) \<and>
      o_put (write_stream b) + n \<le> length (o_bytes (write_stream b)) \<and>
      length (o_bytes (write_stream b)) \<le> o_room (write_stream b))"

lemma put_at_put_at:
  "p + length s1 \<le> length bytes \<Longrightarrow>
     put_at (p + length s1) s2 (put_at p s1 bytes) = put_at p (s1 @ s2) bytes"
proof -
  assume a: "p + length s1 \<le> length bytes"
  have "length bytes \<le> p \<Longrightarrow> s1 = []" using a by (cases s1) simp_all
  then show ?thesis using a by (auto simp add: put_at_def min_def ac_simps)
qed

lemma length_put_at_inside:
  "p + length s \<le> length bytes \<Longrightarrow> length (put_at p s bytes) = length bytes"
  by (simp add: put_at_def)

lemma overwrote_writefil:
  "can_put (length s) b \<Longrightarrow> overwrote s b (writefil s b)"
  by (simp add: overwrote_def can_put_def writefil_def ofstream_write_def)

lemma overwrote_then:
  assumes "can_put (length s1 + length s2) b" "overwrote s1 b b1" "overwrote s2 b1 b2"
  shows "overwrote (s1 @ s2) b b2"
  using assms
  by (simp add: overwrote_def can_put_def put_at_put_at add.assoc)

lemma can_put_after:
  assumes "can_put (length s1 + n) b" "overwrote s1 b b1"
  shows "can_put n b1"
  using assms
  by (simp add: overwrote_def can_put_def length_put_at_inside add.assoc)

lemma can_put_less: "can_put n b \<Longrightarrow> m \<le> n \<Longrightarrow> can_put m b"
  by (simp add: can_put_def)

lemma overwrote_writeFileHeader:
  assumes "can_put 4104 b"
  shows "overwrote (file_header_bytes (index_data_pos b)) b (writeFileHeader b)"
proof -
  define b0 where "b0 = b\<lparr>file_header_pos := record_pos b\<rparr>"
  define H where "H = Header_write (file_header_fields (index_data_pos b))"
  have lH: "length H = 30" by (simp add: H_def length_file_header_write)
  define b1 where "b1 = writefil (u32_bytes 30) b0"
  define b2 where "b2 = writefil H b1"
  define b3 where "b3 = writefil (u32_bytes 4066) b2"
  define b4 where "b4 = writefil (replicate 4066 CHR '' '') b3"
  have c0: "can_put (4 + (30 + (4 + 4066))) b0" using assms by (simp add: can_put_def b0_def)
  have o1: "overwrote (u32_bytes 30) b0 b1"
    unfolding b1_def by (rule overwrote_writefil) (rule can_put_less[OF c0], simp)
  have c1: "can_put (30 + (4 + 4066)) b1" by (rule can_put_after[OF _ o1]) (use c0 in simp)
  have o2: "overwrote H b1 b2"
    unfolding b2_def by (rule overwrote_writefil) (rule can_put_less[OF c1], simp add: lH)
  have c2: "can_put (4 + 4066) b2" by (rule can_put_after[OF _ o2]) (use c1 in \<open>simp add: lH\<close>)
  have o3: "overwrote (u32_bytes 4066) b2 b3"
    unfolding b3_def by (rule overwrote_writefil) (rule can_put_less[OF c2], simp)
  have c3: "can_put 4066 b3" by (rule can_put_after[OF _ o3]) (use c2 in simp)
  have o4: "overwrote (replicate 4066 CHR '' '') b3 b4"
    unfolding b4_def by (rule overwrote_writefil) (rule can_put_less[OF c3], simp)
  have o34: "overwrote (u32_bytes 4066 @ replicate 4066 CHR '' '') b2 b4"
    using _ o3 o4 by (rule overwrote_then) (use c2 in simp)
  have o234: "overwrote (H @ u32_bytes 4066 @ replicate 4066 CHR '' '') b1 b4"
    using _ o2 o34 by (rule overwrote_then) (use c1 in \<open>simp add: lH\<close>)
  have o: "overwrote (u32_bytes 30 @ H @ u32_bytes 4066 @ replicate 4066 CHR '' '') b0 b4"
    using _ o1 o234 by (rule overwrote_then) (use c0 in \<open>simp add: lH\<close>)
  have ip: "index_data_pos (b\<lparr>file_header_pos := record_pos b\<rparr>) = index_data_pos b"
    by simp
  have r: "writeFileHeader b = b4"
    unfolding writeFileHeader_def Let_def
    apply (simp only: ip file_header_fields_def[symmetric] length_file_header_write)
    apply (simp add: FILE_HEADER_LENGTH_def b4_def b3_def b2_def b1_def b0_def H_def
        length_file_header_write)
    done
  show ?thesis
    using o unfolding r file_header_bytes_eq H_def
    by (simp add: overwrote_def b0_def)
qed

lemma writeVersion_eq: "writeVersion b = writefil version_line b"
  by (simp add: writeVersion_def version_line_def)

lemma wrote_writeFileHeader:
  assumes "appending b"
  shows "wrote (file_header_bytes (index_data_pos b)) b (writeFileHeader b)"
proof -
  define b0 where "b0 = b\<lparr>file_header_pos := record_pos b\<rparr>"
  define H where "H = Header_write (file_header_fields (index_data_pos b))"
  have lH: "length H = 30" by (simp add: H_def length_file_header_write)
  define b1 where "b1 = writefil (u32_bytes 30) b0"
  define b2 where "b2 = writefil H b1"
  define b3 where "b3 = writefil (u32_bytes 4066) b2"
  define b4 where "b4 = writefil (replicate 4066 CHR '' '') b3"
  have a0: "appending b0" using assms by (simp add: appending_def b0_def)
  have w34: "appending b2 \<Longrightarrow> wrote (u32_bytes 4066 @ replicate 4066 CHR '' '') b2 b4"
    unfolding b4_def b3_def
    by (rule wrote_then[OF _ wrote_writefil wrote_writefil writefil_fail_sticky])
  have w234: "appending b1 \<Longrightarrow> wrote (H @ u32_bytes 4066 @ replicate 4066 CHR '' '') b1 b4"
    by (rule wrote_then[OF _ _ w34, of b1 H])
       (simp_all add: b2_def wrote_writefil b4_def b3_def writefil_fail_sticky)
  have w: "wrote (u32_bytes 30 @ H @ u32_bytes 4066 @ replicate 4066 CHR '' '') b0 b4"
    by (rule wrote_then[OF a0 _ w234, of "u32_bytes 30"])
       (simp_all add: b1_def b2_def wrote_writefil a0 b4_def b3_def writefil_fail_sticky)
  have ip: "index_data_pos (b\<lparr>file_header_pos := record_pos b\<rparr>) = index_data_pos b"
    by simp
  have r: "writeFileHeader b = b4"
    unfolding writeFileHeader_def Let_def
    apply (simp only: ip file_header_fields_def[symmetric] length_file_header_write)
    apply (simp add: FILE_HEADER_LENGTH_def b4_def b3_def b2_def b1_def b0_def H_def
        length_file_header_write)
    done
  show ?thesis
    unfolding r file_header_bytes_eq H_def[symmetric]
    by (rule wrote_cong[OF w]) (simp_all add: b0_def)
qed

text \<open>\<^verbatim>\<open>open(file_name, Write)\<close> on a bag whose streams are closed: it returns true, and
  when the device has room for them the file holds the version line and the file header,
  with \<open>index_pos = index_data_pos\<close> (0 after the constructor).\<close>

lemma Bag_open_write:
  assumes cr: "fs_creatable w name" and cl: "\<not> o_is_open (write_stream b)"
    and rm: "fs_room w < 2 ^ 64"
  shows "\<exists>b'. Bag_open w name 2 b = Inr (True, b') \<and>
           (if 4120 \<le> fs_room w
            then appending b' \<and>
                 o_bytes (write_stream b') = version_line @ file_header_bytes (index_data_pos b) \<and>
                 o_room (write_stream b') = fs_room w \<and> file_header_pos b' = 16
            else o_fail (write_stream b')) \<and>
           index_data_pos b' = index_data_pos b \<and>
           topics_recorded b' = topics_recorded b \<and>
           topic_indexes b' = topic_indexes b \<and>
           indet b' = indet b \<and>
           (disk_ok w \<and> writing_enabled b \<longrightarrow> writing_enabled b')"
proof -
  define b0 where "b0 = b\<lparr>mode := 2, file_name := name\<rparr>"
  define b1 where "b1 = b0\<lparr>write_stream := ofstream_open w name (write_stream b0)\<rparr>"
  define c where "c = snd (checkDisk w
     (b1\<lparr>check_disk_next := wall_now w + seconds 20, warn_next := 0, record_pos := 0\<rparr>))"
  define b2 where "b2 = writeVersion c"
  define b3 where "b3 = writeFileHeader b2"
  have m: "\<not> readMode b0" "writeMode b0" "\<not> appendMode b0" "\<not> readMode b3"
    by (simp_all add: readMode_def writeMode_def appendMode_def b0_def b3_def b2_def c_def
        b1_def writeFileHeader_def writeVersion_def Let_def writefil_def checkDisk_def
        split: option.splits prod.splits)
  have ws1: "write_stream b1 =
      \<lparr>o_is_open = True, o_fail = False, o_bytes = [], o_put = 0, o_room = fs_room w\<rparr>"
    using cr cl by (simp add: b1_def b0_def ofstream_open_def)
  have nf: "\<not> o_fail (write_stream b1)" by (simp add: ws1)
  have op: "Bag_open w name 2 b = Inr (True, b3)"
    unfolding Bag_open_def Let_def
    apply (simp only: b0_def[symmetric])
    apply (simp only: b1_def[symmetric])
    apply (simp only: c_def[symmetric])
    apply (simp only: b2_def[symmetric])
    apply (simp only: b3_def[symmetric])
    apply (simp add: m nf)
    done
  have ac: "appending c" using rm by (simp add: appending_def c_def ws1)
  have rc: "o_room (write_stream c) = fs_room w" "o_bytes (write_stream c) = []"
    by (simp_all add: c_def ws1)
  have w2: "wrote version_line c b2"
    unfolding b2_def writeVersion_eq by (rule wrote_writefil[OF ac])
  have i2: "index_data_pos b2 = index_data_pos b"
    by (simp add: b2_def writeVersion_eq c_def b1_def b0_def)
  have w3: "wrote (version_line @ file_header_bytes (index_data_pos b)) c b3"
    using wrote_then[OF ac w2, of "file_header_bytes (index_data_pos b)" b3]
      wrote_writeFileHeader[of b2] writeFileHeader_sticky[of b2]
    by (simp add: b3_def i2)
  have room: "has_room (length (version_line @ file_header_bytes (index_data_pos b))) c
      = (4120 \<le> fs_room w)"
    by (simp add: has_room_def rc)
  have A: "4120 \<le> fs_room w \<Longrightarrow>
      appending b3 \<and>
      o_bytes (write_stream b3) = version_line @ file_header_bytes (index_data_pos b) \<and>
      o_room (write_stream b3) = fs_room w \<and> file_header_pos b3 = 16"
  proof -
    assume r: "4120 \<le> fs_room w"
    then have hr: "has_room (length (version_line @ file_header_bytes (index_data_pos b))) c"
      using room by simp
    have hr2: "has_room (length version_line) c" using r by (simp add: has_room_def rc)
    note x = wrote_appending[OF ac w3 hr]
    note y = wrote_appending[OF ac w2 hr2]
    have "unat (record_pos b2) = 16" using y(1,2) by (simp add: appending_def rc)
    then have "record_pos b2 = 16" by (simp add: word_unat_eq_iff)
    then show ?thesis using x by (simp add: rc b3_def)
  qed
  have B: "\<not> 4120 \<le> fs_room w \<Longrightarrow> o_fail (write_stream b3)"
    using w3 room by (simp add: wrote_def)
  have en: "disk_ok w \<and> writing_enabled b \<longrightarrow> writing_enabled b3"
    by (simp add: b3_def b2_def writeVersion_eq c_def checkDisk_enabled b1_def b0_def)
  show ?thesis
    using op A B en
    by (simp add: b3_def b2_def writeVersion_eq c_def b1_def b0_def)
qed

lemma Bag_write_Inr:
  assumes en: "writing_enabled b" and ok: "Bag_write w topic_name t msg b = Inr b'"
  shows "appending b \<Longrightarrow> wrote (write_bytes topic_name t msg b) b b'"
    and "o_fail (write_stream b) \<Longrightarrow> o_fail (write_stream b')"
    and "dead b \<Longrightarrow>
           o_fail (write_stream b') \<and> o_bytes (write_stream b') = o_bytes (write_stream b)"
    and "topics_recorded b' =
             (if map_of (topics_recorded b) topic_name = None
              then map_assign topic_name (new_info topic_name msg) (topics_recorded b)
              else topics_recorded b)"
    and "topic_indexes b' =
             map_assign topic_name
               (index_for topic_name b @ [\<lparr>time = t, pos = record_pos b\<rparr>])
               (if map_of (topics_recorded b) topic_name = None
                then map_assign topic_name [] (topic_indexes b) else topic_indexes b)"
    and "file_header_pos b' = file_header_pos b"
    and "index_data_pos b' = index_data_pos b"
    and "indet b' = indet b"
    and "read_stream b' = read_stream b"
    and "disk_ok w \<Longrightarrow> writing_enabled b'"
  using Bag_write_cases[OF en, of msg w topic_name t] ok by auto

definition world_disk :: "nat \<Rightarrow> World" where
  "world_disk room =
     \<lparr>fs_files = (\<lambda>n. None), fs_creatable = (\<lambda>n. True), fs_room = room, wall_now = 0,
      fs_statvfs = None\<rparr>"

lemma world_disk_simps [simp]:
  "fs_creatable (world_disk room) n" "fs_room (world_disk room) = room"
  "disk_ok (world_disk room)"
  by (simp_all add: world_disk_def disk_ok_def)

lemma Bag_new_simps [simp]:
  "\<not> o_is_open (write_stream (Bag_new raw))" "writing_enabled (Bag_new raw)"
  "index_data_pos (Bag_new raw) = 0" "topics_recorded (Bag_new raw) = []"
  "topic_indexes (Bag_new raw) = []" "indet (Bag_new raw) = indet raw"
  by (simp_all add: Bag_new_def)

lemma length_header_bytes_le:
  "length (header_bytes flds dl) \<le> 8 + length (Header_write flds)"
  by (simp add: header_bytes_def)

subsection \<open>C5: the position of an index entry\<close>

text \<open>
  C5. A \<^verbatim>\<open>write(topic, time, message)\<close> call that returns, on a bag with writing enabled,
  leaves the topic's index as it was (empty when the topic was new) followed by one entry
  with the given time and with \<open>pos\<close> the \<open>record_pos\<close> before the call. When the stream
  was at the end of the file before the call and has not failed after it, that \<open>pos\<close> is the
  length of the file before the call, and the call appended exactly \<open>write_bytes\<close> there: the
  definition record when the topic was new, then the data record. So \<open>pos\<close> is the offset
  of the first record written for the message.
\<close>

theorem write_index_entry_pos:
  assumes en: "writing_enabled b" and ok: "Bag_write w topic_name t msg b = Inr b'"
  shows "map_of (topic_indexes b') topic_name =
           Some (index_for topic_name b @ [\<lparr>time = t, pos = record_pos b\<rparr>]) \<and>
         (appending b \<and> \<not> o_fail (write_stream b') \<longrightarrow>
            unat (record_pos b) = length (o_bytes (write_stream b)) \<and>
            o_bytes (write_stream b') =
              o_bytes (write_stream b) @ write_bytes topic_name t msg b)"
proof -
  note r = Bag_write_Inr[OF en ok]
  have 1: "map_of (topic_indexes b') topic_name =
           Some (index_for topic_name b @ [\<lparr>time = t, pos = record_pos b\<rparr>])"
    by (simp add: r(5))
  have 2: "unat (record_pos b) = length (o_bytes (write_stream b)) \<and>
            o_bytes (write_stream b') =
              o_bytes (write_stream b) @ write_bytes topic_name t msg b"
    if a: "appending b" and nf: "\<not> o_fail (write_stream b')"
  proof -
    have w: "wrote (write_bytes topic_name t msg b) b b'" by (rule r(1)[OF a])
    have hr: "has_room (length (write_bytes topic_name t msg b)) b"
      using w nf by (auto simp: wrote_def split: if_splits)
    show ?thesis using wrote_appending(2)[OF a w hr] a by (simp add: appending_def)
  qed
  show ?thesis using 1 2 by blast
qed

lemma length_write_bytes_hello:
  "map_of (topics_recorded b) ''/chatter'' = None \<Longrightarrow>
   length (write_bytes ''/chatter'' (at_sec 7) (string_msg ''hello'') b) \<le> 1000"
  apply (simp add: write_bytes_def)
  apply (rule order_trans[OF add_mono[OF length_header_bytes_le
      add_mono[OF length_header_bytes_le order_refl]]])
  apply (simp add: def_header_def data_header_def info_for_def new_info_def string_msg_def
      latching_of_def callerid_of_def at_sec_def
      OP_FIELD_NAME_def TOPIC_FIELD_NAME_def MD5_FIELD_NAME_def TYPE_FIELD_NAME_def
      DEF_FIELD_NAME_def SEC_FIELD_NAME_def NSEC_FIELD_NAME_def LATCHING_FIELD_NAME_def
      CALLERID_FIELD_NAME_def)
  done


theorem write_index_entry_pos_witness:
  "\<exists>b b'. Bag_open (world_disk 1000000) ''a.bag'' 2 (Bag_new zero_storage) = Inr (True, b) \<and>
     writing_enabled b \<and>
     Bag_write (world_disk 1000000) ''/chatter'' (at_sec 7) (string_msg ''hello'') b = Inr b' \<and>
     map_of (topic_indexes b') ''/chatter'' = Some [\<lparr>time = at_sec 7, pos = 4120\<rparr>] \<and>
     appending b \<and> \<not> o_fail (write_stream b') \<and> unat (record_pos b) = 4120 \<and>
     o_bytes (write_stream b') =
       o_bytes (write_stream b) @ write_bytes ''/chatter'' (at_sec 7) (string_msg ''hello'') b"
proof -
  let ?w = "world_disk 1000000"
  obtain b where op: "Bag_open ?w ''a.bag'' 2 (Bag_new zero_storage) = Inr (True, b)"
    and a: "appending b"
    and bs: "o_bytes (write_stream b) = version_line @ file_header_bytes 0"
    and rm: "o_room (write_stream b) = 1000000"
    and tr: "topics_recorded b = []" and ti: "topic_indexes b = []"
    and en: "writing_enabled b"
    using Bag_open_write[of ?w "''a.bag''" "Bag_new zero_storage"] by auto
  have sm: "length (serialized (string_msg ''hello'')) \<le> 2 ^ 31" by (simp add: string_msg_def)
  obtain b' where wr: "Bag_write ?w ''/chatter'' (at_sec 7) (string_msg ''hello'') b = Inr b'"
    using Bag_write_small[OF en sm] by blast
  have len: "length (write_bytes ''/chatter'' (at_sec 7) (string_msg ''hello'') b) \<le> 1000"
    by (rule length_write_bytes_hello) (simp add: tr)
  have hr: "has_room (length (write_bytes ''/chatter'' (at_sec 7) (string_msg ''hello'') b)) b"
    using len by (simp add: has_room_def bs rm)
  have w: "wrote (write_bytes ''/chatter'' (at_sec 7) (string_msg ''hello'') b) b b'"
    by (rule Bag_write_Inr(1)[OF en wr a])
  have nf: "\<not> o_fail (write_stream b')"
    using wrote_appending(1)[OF a w hr] by (simp add: appending_def)
  have p: "unat (record_pos b) = 4120" using a by (simp add: appending_def bs)
  then have p': "record_pos b = 4120" by (simp add: word_unat_eq_iff)
  have ix: "index_for ''/chatter'' b = []" by (simp add: index_for_def tr)
  have "Bag_open ?w ''a.bag'' 2 (Bag_new zero_storage) = Inr (True, b) \<and>
     writing_enabled b \<and>
     Bag_write ?w ''/chatter'' (at_sec 7) (string_msg ''hello'') b = Inr b' \<and>
     map_of (topic_indexes b') ''/chatter'' = Some [\<lparr>time = at_sec 7, pos = 4120\<rparr>] \<and>
     appending b \<and> \<not> o_fail (write_stream b') \<and> unat (record_pos b) = 4120 \<and>
     o_bytes (write_stream b') =
       o_bytes (write_stream b) @ write_bytes ''/chatter'' (at_sec 7) (string_msg ''hello'') b"
    using write_index_entry_pos[OF en wr] op en a nf p wr
    by (simp add: ix p')
  then show ?thesis by blast
qed

subsection \<open>C6: a write that fails at the stream\<close>

text \<open>
  C6. \<^verbatim>\<open>Bag::write\<close> on a bag with writing enabled returns normally whatever became of the
  stream: the result is a bag, never an error, and the index entry for the message is in
  the topic's index. When the stream is not open, its \<^verbatim>\<open>write\<close> fails: \<^verbatim>\<open>fail()\<close> is set on
  return and no byte was written. When the device has no room for the records and the
  payload has 1024 bytes or more (a write of that size is not kept in the stream's buffer),
  \<^verbatim>\<open>fail()\<close> is set on return as well. The source tests \<^verbatim>\<open>write_stream_.fail()\<close> after
  \<^verbatim>\<open>writeRecord\<close> and only logs.
\<close>

theorem write_failure_not_surfaced:
  assumes en: "writing_enabled b" and small: "length (serialized msg) \<le> 2 ^ 31"
  shows "\<exists>b'. Bag_write w topic_name t msg b = Inr b' \<and>
           map_of (topic_indexes b') topic_name =
             Some (index_for topic_name b @ [\<lparr>time = t, pos = record_pos b\<rparr>]) \<and>
           (\<not> o_is_open (write_stream b) \<longrightarrow>
              o_fail (write_stream b') \<and>
              o_bytes (write_stream b') = o_bytes (write_stream b)) \<and>
           (appending b \<and> 1024 \<le> length (serialized msg) \<and>
            \<not> has_room (length (write_bytes topic_name t msg b)) b \<longrightarrow>
              o_fail (write_stream b'))"
proof -
  obtain b' where wr: "Bag_write w topic_name t msg b = Inr b'"
    using Bag_write_small[OF en small] by blast
  note r = Bag_write_Inr[OF en wr]
  have 1: "map_of (topic_indexes b') topic_name =
             Some (index_for topic_name b @ [\<lparr>time = t, pos = record_pos b\<rparr>])"
    by (simp add: r(5))
  have 2: "o_fail (write_stream b') \<and> o_bytes (write_stream b') = o_bytes (write_stream b)"
    if "\<not> o_is_open (write_stream b)"
    using r(3) that by (simp add: dead_def)
  have 3: "o_fail (write_stream b')"
    if "appending b" "\<not> has_room (length (write_bytes topic_name t msg b)) b"
    using r(1)[OF that(1)] that(2) by (simp add: wrote_def)
  show ?thesis using wr 1 2 3 by blast
qed

theorem write_failure_not_surfaced_witness:
  "(\<exists>b'. writing_enabled (Bag_new zero_storage) \<and>
      \<not> o_is_open (write_stream (Bag_new zero_storage)) \<and>
      Bag_write (world_disk 1000000) ''/chatter'' (at_sec 7) (string_msg ''hello'')
        (Bag_new zero_storage) = Inr b' \<and>
      o_fail (write_stream b') \<and> o_bytes (write_stream b') = [] \<and>
      map_of (topic_indexes b') ''/chatter'' = Some [\<lparr>time = at_sec 7, pos = 0\<rparr>]) \<and>
   (\<exists>b b'. Bag_open (world_disk 4130) ''a.bag'' 2 (Bag_new zero_storage) = Inr (True, b) \<and>
      writing_enabled b \<and> appending b \<and>
      length (o_bytes (write_stream b)) = 4120 \<and> o_room (write_stream b) = 4130 \<and>
      Bag_write (world_disk 4130) ''/chatter'' (at_sec 7)
        (string_msg (replicate 1024 CHR ''x'')) b = Inr b' \<and>
      o_fail (write_stream b') \<and>
      map_of (topic_indexes b') ''/chatter'' = Some [\<lparr>time = at_sec 7, pos = 4120\<rparr>])"
proof -
  let ?n = "Bag_new zero_storage"
  have sm: "length (serialized (string_msg ''hello'')) \<le> 2 ^ 31" by (simp add: string_msg_def)
  have en0: "writing_enabled ?n" by simp
  have cl0: "\<not> o_is_open (write_stream ?n)" by simp
  have ix0: "index_for ''/chatter'' ?n = []" by (simp add: index_for_def)
  have p0: "record_pos ?n = 0" "o_bytes (write_stream ?n) = []"
    by (simp_all add: Bag_new_def zero_storage_def)
  have A: "\<exists>b'. writing_enabled ?n \<and> \<not> o_is_open (write_stream ?n) \<and>
      Bag_write (world_disk 1000000) ''/chatter'' (at_sec 7) (string_msg ''hello'') ?n = Inr b' \<and>
      o_fail (write_stream b') \<and> o_bytes (write_stream b') = [] \<and>
      map_of (topic_indexes b') ''/chatter'' = Some [\<lparr>time = at_sec 7, pos = 0\<rparr>]"
    using write_failure_not_surfaced[OF en0 sm, of "world_disk 1000000" "''/chatter''" "at_sec 7"]
      en0 cl0
    by (auto simp add: ix0 p0)
  let ?w = "world_disk 4130"
  let ?m = "string_msg (replicate 1024 CHR ''x'')"
  obtain b where op: "Bag_open ?w ''a.bag'' 2 (Bag_new zero_storage) = Inr (True, b)"
    and a: "appending b"
    and bs: "o_bytes (write_stream b) = version_line @ file_header_bytes 0"
    and rm: "o_room (write_stream b) = 4130"
    and tr: "topics_recorded b = []" and ti: "topic_indexes b = []"
    and en: "writing_enabled b"
    using Bag_open_write[of ?w "''a.bag''" "Bag_new zero_storage"] by auto
  have sl: "length (serialized ?m) = 1024" by (simp add: string_msg_def)
  have sm': "length (serialized ?m) \<le> 2 ^ 31" by (simp add: sl)
  have big: "1024 \<le> length (serialized ?m)" by (simp add: sl)
  have len: "1024 \<le> length (write_bytes ''/chatter'' (at_sec 7) ?m b)"
    by (simp add: write_bytes_def serializationLength_def sl)
  have full: "\<not> has_room (length (write_bytes ''/chatter'' (at_sec 7) ?m b)) b"
    using len by (simp add: has_room_def bs rm)
  have p: "unat (record_pos b) = 4120" using a by (simp add: appending_def bs)
  then have p': "record_pos b = 4120" by (simp add: word_unat_eq_iff)
  have ix: "index_for ''/chatter'' b = []" by (simp add: index_for_def tr)
  have B: "\<exists>b'. Bag_write ?w ''/chatter'' (at_sec 7) ?m b = Inr b' \<and>
      o_fail (write_stream b') \<and>
      map_of (topic_indexes b') ''/chatter'' = Some [\<lparr>time = at_sec 7, pos = 4120\<rparr>]"
    using write_failure_not_surfaced[OF en sm', of ?w "''/chatter''" "at_sec 7"] a big full
    by (auto simp add: ix p')
  have "\<exists>b b'. Bag_open ?w ''a.bag'' 2 (Bag_new zero_storage) = Inr (True, b) \<and>
      writing_enabled b \<and> appending b \<and>
      length (o_bytes (write_stream b)) = 4120 \<and> o_room (write_stream b) = 4130 \<and>
      Bag_write ?w ''/chatter'' (at_sec 7) ?m b = Inr b' \<and>
      o_fail (write_stream b') \<and>
      map_of (topic_indexes b') ''/chatter'' = Some [\<lparr>time = at_sec 7, pos = 4120\<rparr>]"
    using op en a bs rm B by auto
  with A show ?thesis by blast
qed

subsection \<open>The reader: records in the file\<close>

text \<open>
  \<open>at_pos F p is\<close>: the stream is open on the file \<open>F\<close>, good, and stands at offset \<open>p\<close>.
  \<open>bytes_at F p s\<close>: the bytes \<open>s\<close> are in \<open>F\<close> at offset \<open>p\<close>.
\<close>

definition at_pos :: "string \<Rightarrow> nat \<Rightarrow> ifstream \<Rightarrow> bool" where
  "at_pos F p is = (i_is_open is \<and> \<not> i_eof is \<and> \<not> i_fail is \<and> i_bytes is = F \<and> i_get is = p)"

lemma ifstream_read_at:
  assumes "at_pos F p is" "p + n \<le> length F"
  shows "ifstream_read n is = (take n (drop p F), is\<lparr>i_get := p + n\<rparr>)"
    and "at_pos F (p + n) (is\<lparr>i_get := p + n\<rparr>)"
  using assms by (simp_all add: at_pos_def ifstream_read_def ifstream_good_def Let_def)

lemma ifstream_seekg_at:
  assumes "at_pos F p is"
  shows "at_pos F q (ifstream_seekg q is)" "ifstream_seekg q is = is\<lparr>i_get := q\<rparr>"
  using assms by (simp_all add: at_pos_def ifstream_seekg_def)

text \<open>A header whose names hold no \<open>=\<close> and whose values are shorter than \<open>2^32\<close> bytes
  decodes to the fields it was made of, assigned in turn.\<close>

definition wf_fields :: "M_string \<Rightarrow> bool" where
  "wf_fields flds = (\<forall>(k, v) \<in> set flds. CHR ''='' \<notin> set k \<and> length v < 2 ^ 32)"

definition assign_all :: "M_string \<Rightarrow> M_string \<Rightarrow> M_string" where
  "assign_all acc flds = foldl (\<lambda>m (k, v). map_assign k v m) acc flds"

lemma assign_all_simps [simp]:
  "assign_all acc [] = acc"
  "assign_all acc ((k, v) # flds) = assign_all (map_assign k v acc) flds"
  by (simp_all add: assign_all_def)

lemma wf_fields_Cons:
  "wf_fields ((k, v) # flds) \<longleftrightarrow> CHR ''='' \<notin> set k \<and> length v < 2 ^ 32 \<and> wf_fields flds"
  by (simp add: wf_fields_def)

declare Header_parse_from.simps [simp del]

lemma takeWhile_name: "CHR ''='' \<notin> set k \<Longrightarrow> takeWhile (\<lambda>c. c \<noteq> CHR ''='') (k @ CHR ''='' # r) = k"
  by (induction k) auto

lemma unat_u32_length: "n < 2 ^ 32 \<Longrightarrow> unat (word_of_nat n :: 32 word) = n"
  by (simp add: unat_of_nat)

lemma Header_parse_write:
  "wf_fields flds \<Longrightarrow> Header_parse_from (Header_write flds) acc = (True, assign_all acc flds)"
proof (induction flds arbitrary: acc)
  case Nil
  show ?case by (simp add: Header_parse_from.simps)
next
  case (Cons a flds)
  obtain k v where a: "a = (k, v)" by (cases a)
  from Cons.prems a have k: "CHR ''='' \<notin> set k" and v: "length v < 2 ^ 32" and w: "wf_fields flds"
    by (simp_all add: wf_fields_Cons)
  define r where "r = u32_bytes (word_of_nat (length v)) @ v @ Header_write flds"
  have buf: "Header_write (a # flds) = k @ CHR ''='' # r" by (simp add: a r_def)
  have n: "takeWhile (\<lambda>c. c \<noteq> CHR ''='') (k @ CHR ''='' # r) = k" by (rule takeWhile_name[OF k])
  have t4: "take 4 r = u32_bytes (word_of_nat (length v))" by (simp add: r_def)
  have d4: "drop 4 r = v @ Header_write flds" by (simp add: r_def)
  have l4: "\<not> length r < 4" by (simp add: r_def)
  have un: "unat (bytes_u32 (take 4 r)) = length v"
    by (simp add: t4 unat_u32_length[OF v])
  show ?case
    unfolding buf
    apply (subst Header_parse_from.simps)
    apply (simp only: n Let_def)
    apply (simp add: l4 un d4 Cons.IH[OF w] a)
    done
qed

lemma map_of_assign_all: "map_of (assign_all acc flds) = map_of acc ++ map_of (rev flds)"
proof (induction flds arbitrary: acc)
  case Nil
  show ?case by simp
next
  case (Cons a flds)
  obtain k v where a: "a = (k, v)" by (cases a)
  show ?case by (simp add: a Cons.IH map_add_def fun_eq_iff split: option.splits)
qed

definition bytes_at :: "string \<Rightarrow> nat \<Rightarrow> string \<Rightarrow> bool" where
  "bytes_at F p s = (p + length s \<le> length F \<and> take (length s) (drop p F) = s)"

lemma bytes_at_append:
  "bytes_at F p (s1 @ s2) \<longleftrightarrow> bytes_at F p s1 \<and> bytes_at F (p + length s1) s2"
proof
  assume a: "bytes_at F p (s1 @ s2)"
  then have l: "p + length s1 + length s2 \<le> length F"
    and t: "take (length s1 + length s2) (drop p F) = s1 @ s2"
    by (simp_all add: bytes_at_def add.assoc)
  have "take (length s1) (take (length s1 + length s2) (drop p F)) = s1"
    unfolding t by simp
  then have 1: "take (length s1) (drop p F) = s1" by (simp add: min_def)
  have "drop (length s1) (take (length s1 + length s2) (drop p F)) = s2"
    unfolding t by simp
  then have 2: "take (length s2) (drop (p + length s1) F) = s2"
    by (simp add: drop_take add.commute)
  show "bytes_at F p s1 \<and> bytes_at F (p + length s1) s2"
    using l 1 2 by (simp add: bytes_at_def)
next
  assume a: "bytes_at F p s1 \<and> bytes_at F (p + length s1) s2"
  then have l: "p + length s1 + length s2 \<le> length F"
    and 1: "take (length s1) (drop p F) = s1"
    and 2: "take (length s2) (drop (p + length s1) F) = s2"
    by (simp_all add: bytes_at_def)
  have "take (length s1 + length s2) (drop p F) =
        take (length s1) (drop p F) @ take (length s2) (drop (length s1) (drop p F))"
    by (simp add: take_add)
  also have "\<dots> = s1 @ s2" using 1 2 by (simp add: add.commute)
  finally show "bytes_at F p (s1 @ s2)" using l by (simp add: bytes_at_def add.assoc)
qed

lemma bytes_at_here: "bytes_at (A @ s @ B) (length A) s"
  by (simp add: bytes_at_def)

lemma bytes_at_prefix: "bytes_at F p s \<Longrightarrow> bytes_at (F @ G) p s"
  by (simp add: bytes_at_def)

lemma read_bytes_at:
  assumes "at_pos F p is" "bytes_at F p s"
  shows "ifstream_read (length s) is = (s, is\<lparr>i_get := p + length s\<rparr>)"
  using ifstream_read_at(1)[OF assms(1), of "length s"] assms(2) by (simp add: bytes_at_def)

lemma overlay_full: "length old \<le> length got \<Longrightarrow> overlay got old = got"
  by (simp add: overlay_def)

lemma header_bytes_eq:
  "length (Header_write flds) < 2 ^ 32 \<Longrightarrow>
   header_bytes flds dl =
     u32_bytes (word_of_nat (length (Header_write flds))) @ Header_write flds @ u32_bytes dl"
  by (simp add: header_bytes_def unat_u32_length)

lemma length_header_bytes:
  "length (Header_write flds) < 2 ^ 32 \<Longrightarrow>
   length (header_bytes flds dl) = 8 + length (Header_write flds)"
  by (simp add: header_bytes_eq)

text \<open>\<^verbatim>\<open>readHeader\<close> on a stream that stands before a well-formed header: it returns true
  with the fields decoded onto the map it was given and with the data length, and leaves
  the stream after the header.\<close>

lemma readHeader_record:
  assumes ap: "at_pos F p (read_stream b)"
    and rec: "bytes_at F p (header_bytes flds dl)"
    and wf: "wf_fields flds" and len: "length (Header_write flds) < 2 ^ 32"
  shows "\<exists>hb hl. readHeader h0 n0 b =
           ((True, assign_all h0 flds, dl),
            b\<lparr>read_stream := (read_stream b)\<lparr>i_get := p + length (header_bytes flds dl)\<rparr>,
              header_buf := hb, header_buf_len := hl\<rparr>)"
proof -
  define H where "H = Header_write flds"
  define hl :: "32 word" where "hl = word_of_nat (length H)"
  have uhl: "unat hl = length H" using len by (simp add: hl_def H_def unat_u32_length)
  have hb: "header_bytes flds dl = u32_bytes hl @ H @ u32_bytes dl"
    using len by (simp add: header_bytes_eq H_def hl_def)
  from rec have r1: "bytes_at F p (u32_bytes hl)"
    and r2: "bytes_at F (p + 4) H"
    and r3: "bytes_at F (p + 4 + length H) (u32_bytes dl)"
    by (simp_all add: hb bytes_at_append)
  define is1 where "is1 = (read_stream b)\<lparr>i_get := p + 4\<rparr>"
  have rd1: "ifstream_read 4 (read_stream b) = (u32_bytes hl, is1)"
    using read_bytes_at[OF ap r1] by (simp add: is1_def)
  have ap1: "at_pos F (p + 4) is1" using ap by (simp add: at_pos_def is1_def)
  define is2 where "is2 = (read_stream b)\<lparr>i_get := p + 4 + length H\<rparr>"
  have rd2: "ifstream_read (length H) is1 = (H, is2)"
    using read_bytes_at[OF ap1 r2] by (simp add: is1_def is2_def)
  have ap2: "at_pos F (p + 4 + length H) is2" using ap by (simp add: at_pos_def is2_def)
  define is3 where "is3 = (read_stream b)\<lparr>i_get := p + 4 + length H + 4\<rparr>"
  have rd3: "ifstream_read 4 is2 = (u32_bytes dl, is3)"
    using read_bytes_at[OF ap2 r3] by (simp add: is2_def is3_def)
  have e1: "\<not> i_eof is1" "\<not> i_eof is2" using ap by (simp_all add: at_pos_def is1_def is2_def)
  have ov1: "overlay (u32_bytes hl) (replicate 4 (indet b)) = u32_bytes hl"
    by (simp add: overlay_full)
  have ov3: "overlay (u32_bytes dl) (u32_bytes n0) = u32_bytes dl"
    by (simp add: overlay_full)
  have tk: "take (length H) (overlay H old) = H" for old
    by (simp add: overlay_def)
  have ps: "Header_parse H h0 = (True, assign_all h0 flds)"
    by (simp add: Header_parse_def H_def Header_parse_write[OF wf])
  have l: "p + length (header_bytes flds dl) = p + 4 + length H + 4"
    by (simp add: hb)
  show ?thesis
    unfolding readHeader_def l is3_def[symmetric]
    apply (simp only: rd1 prod.case ov1 bytes_u32_u32_bytes Let_def)
    apply (simp add: e1 uhl rd2 tk ps rd3 ov3)
    apply (cases "header_buf_len b < hl")
     apply (simp_all add: e1 uhl rd2 tk ps rd3 ov3)
     apply (rule exI[of _ "overlay H (fill (length H) (indet b) (header_buf b))"],
        rule exI[of _ hl])
     apply simp
    apply (rule exI[of _ "overlay H (header_buf b)"], rule exI[of _ "header_buf_len b"])
    apply simp
    done
qed

lemma sscanf_V1_2: "sscanf_version_line ''#ROSRECORD V1.2'' old = Inr (1, 2)"
  by (simp add: sscanf_version_line_def scan_lit_def isspace_def sscanf_d_dot_d_def scan_d_def
      isdigit_def Let_def store_int_small)

lemma getline_version_line:
  assumes "at_pos (version_line @ R) 0 is"
  shows "ifstream_getline l0 is = (''#ROSRECORD V1.2'', is\<lparr>i_get := 16\<rparr>)"
  using assms
  by (simp add: at_pos_def ifstream_getline_def ifstream_good_def version_line_def VERSION_def
      Let_def)

text \<open>\<^verbatim>\<open>readVersion\<close> on a file of this version.\<close>

lemma readVersion_ok:
  assumes "at_pos (version_line @ R) 0 (read_stream b)"
  shows "readVersion b =
           Inr (True, b\<lparr>read_stream := (read_stream b)\<lparr>i_get := 16\<rparr>,
                        version_major := 1, version_minor := 2, version := 102\<rparr>)"
  by (simp add: readVersion_def getline_version_line[OF assms] sscanf_V1_2 sscanf_VERSION Let_def)

lemma wf_file_header_fields: "wf_fields (file_header_fields ip)"
  by (simp add: file_header_fields_eq wf_fields_def)

lemma file_header_bytes_record:
  "file_header_bytes ip = header_bytes (file_header_fields ip) 4066 @ replicate 4066 CHR '' ''"
  by (simp add: file_header_bytes_eq header_bytes_def length_file_header_write)

text \<open>\<^verbatim>\<open>readFileHeader\<close> before a file header: it takes \<open>index_pos\<close> and skips the padding.\<close>

lemma readFileHeader_ok:
  assumes ap: "at_pos F p (read_stream b)" and rec: "bytes_at F p (file_header_bytes ip)"
  shows "\<exists>hb hl. readFileHeader b =
           Inr (True, b\<lparr>read_stream := (read_stream b)\<lparr>i_get := p + 4104\<rparr>,
                        header_buf := hb, header_buf_len := hl, index_data_pos := ip\<rparr>)"
proof -
  have rec': "bytes_at F p (header_bytes (file_header_fields ip) 4066)"
    using rec by (simp add: file_header_bytes_record bytes_at_append)
  have l: "length (Header_write (file_header_fields ip)) < 2 ^ 32"
    by (simp add: length_file_header_write)
  from readHeader_record[OF ap rec' wf_file_header_fields l, of "[]" "indet_u32 b"]
  obtain hb hl where rh: "readHeader [] (indet_u32 b) b =
           ((True, assign_all [] (file_header_fields ip), 4066),
            b\<lparr>read_stream := (read_stream b)\<lparr>i_get := p + length (header_bytes (file_header_fields ip) 4066)\<rparr>,
              header_buf := hb, header_buf_len := hl\<rparr>)" by blast
  have lh: "length (header_bytes (file_header_fields ip) 4066) = 38"
    by (simp add: length_header_bytes[OF l] length_file_header_write)
  have c1: "checkField (assign_all [] (file_header_fields ip)) OP_FIELD_NAME (Suc 0) (Suc 0) True =
             Some (u8_bytes OP_FILE_HEADER)"
    by (simp add: checkField_def map_of_assign_all file_header_fields_eq OP_FIELD_NAME_def)
  have c2: "checkField (assign_all [] (file_header_fields ip)) INDEX_POS_FIELD_NAME 8 8 True =
             Some (u64_bytes ip)"
    by (simp add: checkField_def map_of_assign_all file_header_fields_eq INDEX_POS_FIELD_NAME_def)
  have sk: "ifstream_seekg (4104 + p) ((read_stream b)\<lparr>i_get := p + 38\<rparr>) =
            (read_stream b)\<lparr>i_get := p + 4104\<rparr>"
    using ap by (simp add: ifstream_seekg_def at_pos_def)
  show ?thesis
    apply (rule exI[of _ hb], rule exI[of _ hl])
    apply (simp add: readFileHeader_def rh c1 c2 lh sk)
    done
qed

text \<open>\<^verbatim>\<open>readHeader\<close> at the end of the file: the first read finds nothing.\<close>

lemma readHeader_at_end:
  assumes "at_pos F (length F) (read_stream b)"
  shows "readHeader h0 n0 b =
           ((False, h0, n0), b\<lparr>read_stream := (read_stream b)\<lparr>i_eof := True, i_fail := True\<rparr>\<rparr>)"
  using assms
  by (simp add: readHeader_def ifstream_read_def ifstream_good_def at_pos_def Let_def)

definition entry_bytes :: "IndexEntry \<Rightarrow> string" where
  "entry_bytes e = u32_bytes (sec (time e)) @ u32_bytes (nsec (time e)) @ u64_bytes (pos e)"

definition index_record :: "string \<Rightarrow> MsgInfo \<Rightarrow> IndexEntry list \<Rightarrow> string" where
  "index_record tn mi es =
     header_bytes (index_header tn mi (word_of_nat (length es))) (word_of_nat (length es) * 16) @
     concat (map entry_bytes es)"

lemma length_entry_bytes [simp]: "length (entry_bytes e) = 16"
  by (simp add: entry_bytes_def)

lemma length_concat_entries [simp]: "length (concat (map entry_bytes es)) = 16 * length es"
  by (induction es) simp_all

lemma concat_entries_Cons:
  "concat (map entry_bytes (e # es)) =
     u32_bytes (sec (time e)) @ u32_bytes (nsec (time e)) @ u64_bytes (pos e) @
     concat (map entry_bytes es)"
  by (simp add: entry_bytes_def)

lemma read_index_entries_bytes:
  assumes "at_pos F p (read_stream b)" "bytes_at F p (concat (map entry_bytes es))"
  shows "read_index_entries (length es) b ix =
           (b\<lparr>read_stream := (read_stream b)\<lparr>i_get := p + 16 * length es\<rparr>\<rparr>, ix @ es)"
  using assms
proof (induction es arbitrary: b p ix)
  case Nil
  then show ?case by (simp add: at_pos_def)
next
  case (Cons e es)
  from Cons.prems(2) have r: "bytes_at F p (u32_bytes (sec (time e)))"
      "bytes_at F (p + 4) (u32_bytes (nsec (time e)))"
      "bytes_at F (p + 8) (u64_bytes (pos e))"
      "bytes_at F (p + 16) (concat (map entry_bytes es))"
    unfolding concat_entries_Cons by (simp_all add: bytes_at_append add.assoc)
  define rs where "rs = read_stream b"
  have ap: "at_pos F p rs" using Cons.prems(1) by (simp add: rs_def)
  have ap1: "at_pos F (p + 4) (rs\<lparr>i_get := p + 4\<rparr>)"
    and ap2: "at_pos F (p + 8) (rs\<lparr>i_get := p + 8\<rparr>)"
    and ap3: "at_pos F (p + 16) (rs\<lparr>i_get := p + 16\<rparr>)"
    using ap by (simp_all add: at_pos_def)
  have rd1: "ifstream_read 4 rs = (u32_bytes (sec (time e)), rs\<lparr>i_get := p + 4\<rparr>)"
    using read_bytes_at[OF ap r(1)] by simp
  have rd2: "ifstream_read 4 (rs\<lparr>i_get := p + 4\<rparr>) =
      (u32_bytes (nsec (time e)), rs\<lparr>i_get := p + 8\<rparr>)"
    using read_bytes_at[OF ap1 r(2)] by simp
  have rd3: "ifstream_read 8 (rs\<lparr>i_get := p + 8\<rparr>) = (u64_bytes (pos e), rs\<lparr>i_get := p + 16\<rparr>)"
    using read_bytes_at[OF ap2 r(3)] by simp
  have e: "\<lparr>time = \<lparr>sec = sec (time e), nsec = nsec (time e)\<rparr>, pos = pos e\<rparr> = e" by simp
  have ap3': "at_pos F (p + 16) (read_stream (b\<lparr>read_stream := rs\<lparr>i_get := p + 16\<rparr>\<rparr>))"
    using ap3 by simp
  note ih = Cons.IH[OF ap3' r(4), of "ix @ [e]"]
  show ?case
    apply (simp add: rs_def[symmetric] rd1 rd2 rd3 overlay_full e)
    apply (simp add: ih)
    done
qed

definition small :: "string \<Rightarrow> bool" where
  "small s = (length s < 2 ^ 30)"

lemma index_header_eq:
  "index_header tn mi n =
     [(''count'', u32_bytes n), (''op'', u8_bytes OP_INDEX_DATA), (''topic'', tn),
      (''type'', data_type mi), (''ver'', u32_bytes INDEX_VERSION)]"
  by (simp add: index_header_def COUNT_FIELD_NAME_def VER_FIELD_NAME_def TYPE_FIELD_NAME_def
      TOPIC_FIELD_NAME_def OP_FIELD_NAME_def)

lemma index_header_wf:
  assumes "small tn" "small (data_type mi)"
  shows "wf_fields (index_header tn mi n)" "length (Header_write (index_header tn mi n)) < 2 ^ 32"
  using assms by (simp_all add: index_header_eq wf_fields_def small_def)

lemma unat_count16: "n < 2 ^ 28 \<Longrightarrow> unat ((word_of_nat n :: 32 word) * 16) = 16 * n"
proof -
  assume n: "n < 2 ^ 28"
  have "(word_of_nat n :: 32 word) * 16 = word_of_nat (n * 16)" by simp
  moreover have "unat (word_of_nat (n * 16) :: 32 word) = n * 16"
    using n by (simp only: unat_of_nat) simp
  ultimately show ?thesis by simp
qed

text \<open>One pass of the loop of \<^verbatim>\<open>readIndex\<close> before an index record: the entries are
  appended to the topic's index.\<close>

lemma readIndex_body_record:
  assumes ap: "at_pos F p (read_stream b)"
    and rec: "bytes_at F p (index_record tn mi es)"
    and tn: "tn \<noteq> []" "small tn" and dt: "data_type mi \<noteq> []" "small (data_type mi)"
    and n: "length es < 2 ^ 28"
  shows "\<exists>hb hl. readIndex_body b =
           Inr (None,
                b\<lparr>read_stream := (read_stream b)\<lparr>i_get := p + length (index_record tn mi es)\<rparr>,
                  header_buf := hb, header_buf_len := hl,
                  topic_indexes :=
                    map_assign tn
                      ((case map_of (topic_indexes b) tn of None \<Rightarrow> [] | Some ix \<Rightarrow> ix) @ es)
                      (topic_indexes b)\<rparr>)"
proof -
  define cnt :: "32 word" where "cnt = word_of_nat (length es)"
  define flds where "flds = index_header tn mi cnt"
  define L where "L = length (header_bytes flds (cnt * 16))"
  have ucnt: "unat cnt = length es" using n by (simp add: cnt_def unat_of_nat)
  have rec1: "bytes_at F p (header_bytes flds (cnt * 16))"
    and rec2: "bytes_at F (p + L) (concat (map entry_bytes es))"
    using rec by (simp_all add: index_record_def bytes_at_append flds_def cnt_def L_def)
  note wf = index_header_wf[OF tn(2) dt(2), of cnt, folded flds_def]
  from readHeader_record[OF ap rec1 wf, of "[]" "indet_u32 b"]
  obtain hb hl where rh: "readHeader [] (indet_u32 b) b =
           ((True, assign_all [] flds, cnt * 16),
            b\<lparr>read_stream := (read_stream b)\<lparr>i_get := p + L\<rparr>,
              header_buf := hb, header_buf_len := hl\<rparr>)" unfolding L_def by blast
  define b1 where "b1 = b\<lparr>read_stream := (read_stream b)\<lparr>i_get := p + L\<rparr>,
              header_buf := hb, header_buf_len := hl\<rparr>"
  have m: "map_of (assign_all [] flds) ''op'' = Some (u8_bytes OP_INDEX_DATA)"
      "map_of (assign_all [] flds) ''ver'' = Some (u32_bytes INDEX_VERSION)"
      "map_of (assign_all [] flds) ''topic'' = Some tn"
      "map_of (assign_all [] flds) ''type'' = Some (data_type mi)"
      "map_of (assign_all [] flds) ''count'' = Some (u32_bytes cnt)"
    by (simp_all add: map_of_assign_all flds_def index_header_eq)
  have ltn: "Suc 0 \<le> length tn" "length tn \<le> UINT_MAX"
    using tn by (simp_all add: small_def UINT_MAX_def Suc_le_eq)
  have ldt: "Suc 0 \<le> length (data_type mi)" "length (data_type mi) \<le> UINT_MAX"
    using dt by (simp_all add: small_def UINT_MAX_def Suc_le_eq)
  have c: "checkField (assign_all [] flds) OP_FIELD_NAME (Suc 0) (Suc 0) True =
             Some (u8_bytes OP_INDEX_DATA)"
      "checkField (assign_all [] flds) VER_FIELD_NAME 4 4 True = Some (u32_bytes INDEX_VERSION)"
      "checkField (assign_all [] flds) TOPIC_FIELD_NAME (Suc 0) UINT_MAX True = Some tn"
      "checkField (assign_all [] flds) TYPE_FIELD_NAME (Suc 0) UINT_MAX True = Some (data_type mi)"
      "checkField (assign_all [] flds) COUNT_FIELD_NAME 4 4 True = Some (u32_bytes cnt)"
    using ltn ldt tn(1) dt(1)
    by (simp_all add: checkField_def m OP_FIELD_NAME_def VER_FIELD_NAME_def TOPIC_FIELD_NAME_def
        TYPE_FIELD_NAME_def COUNT_FIELD_NAME_def)
  have ap1: "at_pos F (p + L) (read_stream b1)" using ap by (simp add: b1_def at_pos_def)
  have ti1: "topic_indexes b1 = topic_indexes b" by (simp add: b1_def)
  have rie: "read_index_entries (length es) b1 ix =
           (b1\<lparr>read_stream := (read_stream b1)\<lparr>i_get := p + L + 16 * length es\<rparr>\<rparr>, ix @ es)" for ix
    by (rule read_index_entries_bytes[OF ap1 rec2])
  have len: "length (index_record tn mi es) = L + 16 * length es"
    by (simp add: index_record_def L_def flds_def cnt_def)
  show ?thesis
    apply (rule exI[of _ hb], rule exI[of _ hl])
    apply (simp add: readIndex_body_def rh c ucnt unat_count16[OF n, folded cnt_def]
        b1_def[symmetric] rie ti1 len)
    apply (simp add: b1_def add.assoc)
    done
qed

definition index_records :: "(string \<times> MsgInfo \<times> IndexEntry list) list \<Rightarrow> string" where
  "index_records recs = concat (map (\<lambda>(tn, mi, es). index_record tn mi es) recs)"

definition rec_ok :: "string \<times> MsgInfo \<times> IndexEntry list \<Rightarrow> bool" where
  "rec_ok r = (case r of (tn, mi, es) \<Rightarrow>
     tn \<noteq> [] \<and> small tn \<and> data_type mi \<noteq> [] \<and> small (data_type mi) \<and> length es < 2 ^ 28)"

definition index_after ::
  "IndexEntry list std_map \<Rightarrow> (string \<times> MsgInfo \<times> IndexEntry list) list \<Rightarrow>
   IndexEntry list std_map" where
  "index_after m recs =
     foldl (\<lambda>m (tn, mi, es).
              map_assign tn ((case map_of m tn of None \<Rightarrow> [] | Some ix \<Rightarrow> ix) @ es) m) m recs"

lemma index_after_simps [simp]:
  "index_after m [] = m"
  "index_after m ((tn, mi, es) # recs) =
     index_after (map_assign tn ((case map_of m tn of None \<Rightarrow> [] | Some ix \<Rightarrow> ix) @ es) m) recs"
  by (simp_all add: index_after_def)

lemma index_records_simps [simp]:
  "index_records [] = []"
  "index_records ((tn, mi, es) # recs) = index_record tn mi es @ index_records recs"
  by (simp_all add: index_records_def)

declare readIndex_loop.simps [simp del]

text \<open>The loop of \<^verbatim>\<open>readIndex\<close> before index records that reach the end of the file: every
  record is taken, the pass after the last one finds the end, and the stream is cleared.\<close>

lemma readIndex_loop_records:
  assumes "at_pos F p (read_stream b)" "bytes_at F p (index_records recs)"
    and "p + length (index_records recs) = length F" and "\<forall>r\<in>set recs. rec_ok r"
  shows "\<exists>hb hl. readIndex_loop b =
           Inr (True, b\<lparr>read_stream := (read_stream b)\<lparr>i_get := length F\<rparr>,
                        header_buf := hb, header_buf_len := hl,
                        topic_indexes := index_after (topic_indexes b) recs\<rparr>)"
  using assms
proof (induction recs arbitrary: b p)
  case Nil
  then have ap: "at_pos F (length F) (read_stream b)" by simp
  have g: "(read_stream b)\<lparr>i_eof := False, i_fail := False\<rparr> = read_stream b"
    "(read_stream b)\<lparr>i_get := length F\<rparr> = read_stream b"
    using ap by (simp_all add: at_pos_def)
  have "readIndex_loop b = Inr (True, b)"
    apply (subst readIndex_loop.simps)
    apply (simp add: readIndex_body_def readHeader_at_end[OF ap] ifstream_good_def
        ifstream_clear_def g)
    done
  then show ?case
    apply simp
    apply (rule exI[of _ "header_buf b"], rule exI[of _ "header_buf_len b"])
    apply (simp add: g)
    done
next
  case (Cons r recs)
  obtain tn mi es where r: "r = (tn, mi, es)" by (cases r)
  from Cons.prems(4) r have ok: "tn \<noteq> []" "small tn" "data_type mi \<noteq> []" "small (data_type mi)"
      "length es < 2 ^ 28" and oks: "\<forall>r\<in>set recs. rec_ok r"
    by (simp_all add: rec_ok_def)
  define L where "L = length (index_record tn mi es)"
  from Cons.prems(2) r have r1: "bytes_at F p (index_record tn mi es)"
    and r2: "bytes_at F (p + L) (index_records recs)"
    by (simp_all add: bytes_at_append L_def)
  from Cons.prems(3) r have e: "p + L + length (index_records recs) = length F"
    by (simp add: L_def)
  define ti where "ti = map_assign tn
                      ((case map_of (topic_indexes b) tn of None \<Rightarrow> [] | Some ix \<Rightarrow> ix) @ es)
                      (topic_indexes b)"
  from readIndex_body_record[OF Cons.prems(1) r1 ok]
  obtain hb hl where body: "readIndex_body b =
           Inr (None, b\<lparr>read_stream := (read_stream b)\<lparr>i_get := p + L\<rparr>,
                  header_buf := hb, header_buf_len := hl, topic_indexes := ti\<rparr>)"
    unfolding L_def ti_def by blast
  define b1 where "b1 = b\<lparr>read_stream := (read_stream b)\<lparr>i_get := p + L\<rparr>,
                  header_buf := hb, header_buf_len := hl, topic_indexes := ti\<rparr>"
  have ap1: "at_pos F (p + L) (read_stream b1)"
    using Cons.prems(1) by (simp add: b1_def at_pos_def)
  have g1: "ifstream_good (read_stream b1)"
    using ap1 by (simp add: at_pos_def ifstream_good_def)
  from Cons.IH[OF ap1 r2 e oks] obtain hb' hl' where ih: "readIndex_loop b1 =
           Inr (True, b1\<lparr>read_stream := (read_stream b1)\<lparr>i_get := length F\<rparr>,
                        header_buf := hb', header_buf_len := hl',
                        topic_indexes := index_after (topic_indexes b1) recs\<rparr>)" by blast
  have "readIndex_loop b = readIndex_loop b1"
    apply (subst readIndex_loop.simps)
    apply (simp add: body b1_def[symmetric] g1)
    done
  then show ?case
    apply (simp add: ih r)
    apply (rule exI[of _ hb'], rule exI[of _ hl'])
    apply (simp add: b1_def ti_def)
    done
qed

lemma readIndex_records:
  assumes ap: "at_pos F q (read_stream b)"
    and rec: "bytes_at F (unat (index_data_pos b)) (index_records recs)"
    and e: "unat (index_data_pos b) + length (index_records recs) = length F"
    and ok: "\<forall>r\<in>set recs. rec_ok r"
  shows "\<exists>hb hl. readIndex b =
           Inr (True, b\<lparr>read_stream := (read_stream b)\<lparr>i_get := length F\<rparr>,
                        header_buf := hb, header_buf_len := hl,
                        topic_indexes := index_after (topic_indexes b) recs\<rparr>)"
proof -
  define b0 where
    "b0 = b\<lparr>read_stream := ifstream_seekg (unat (index_data_pos b)) (read_stream b)\<rparr>"
  have ap0: "at_pos F (unat (index_data_pos b)) (read_stream b0)"
    using ifstream_seekg_at(1)[OF ap] by (simp add: b0_def)
  have s0: "read_stream b0 = (read_stream b)\<lparr>i_get := unat (index_data_pos b)\<rparr>"
    using ifstream_seekg_at(2)[OF ap] by (simp add: b0_def)
  from readIndex_loop_records[OF ap0 rec e ok] obtain hb hl where
    "readIndex_loop b0 =
           Inr (True, b0\<lparr>read_stream := (read_stream b0)\<lparr>i_get := length F\<rparr>,
                        header_buf := hb, header_buf_len := hl,
                        topic_indexes := index_after (topic_indexes b0) recs\<rparr>)" by blast
  then show ?thesis
    apply (simp add: readIndex_def b0_def[symmetric])
    apply (rule exI[of _ hb], rule exI[of _ hl])
    apply (simp add: s0)
    apply (simp add: b0_def)
    done
qed

definition file_empty_index :: string where
  "file_empty_index =
     version_line @ file_header_bytes 4120 @ index_record ''/a'' (string_info ''/a'') []"

definition world_empty_index :: World where
  "world_empty_index =
     \<lparr>fs_files = (\<lambda>n. if n = ''e.bag'' then Some file_empty_index else None),
      fs_creatable = (\<lambda>n. False), fs_room = 0, wall_now = 0, fs_statvfs = None\<rparr>"

lemma Bag_open_read:
  assumes f: "fs_files w name = Some F" and cl: "\<not> i_is_open (read_stream b)"
    and nf: "\<not> o_fail (write_stream b)"
  shows "Bag_open w name 1 b =
     (case readVersion (b\<lparr>mode := 1, file_name := name,
                          read_stream := \<lparr>i_is_open = True, i_eof = False, i_fail = False,
                                           i_bytes = F, i_get = 0\<rparr>\<rparr>) of
        Inl e \<Rightarrow> Inl e
      | Inr (r1, b4) \<Rightarrow>
          (case readFileHeader b4 of
             Inl e \<Rightarrow> Inl e
           | Inr (r2, b5) \<Rightarrow>
               (case readIndex b5 of
                  Inl e \<Rightarrow> Inl e
                | Inr (r3, b6) \<Rightarrow>
                    (case readDefs b6 of
                       Inl e \<Rightarrow> Inl e
                     | Inr (r4, b7) \<Rightarrow> Inr (True, b7)))))"
  using assms
  by (simp add: Bag_open_def Let_def readMode_def writeMode_def appendMode_def ifstream_open_def)

subsection \<open>C9: \<^verbatim>\<open>readDefs\<close> on a topic whose index is empty\<close>

text \<open>
  C9. \<^verbatim>\<open>readDefs\<close> does not skip a topic whose index is empty: it takes
  \<^verbatim>\<open>topic_index.begin()\<close> and reads \<^verbatim>\<open>j->pos\<close> whatever the vector holds, outside the vector
  when it is empty, so the bootstrap stops there instead of going on to the next topic.
  Such an index comes from a file: an index record with \<open>count = 0\<close> makes \<^verbatim>\<open>readIndex\<close>
  create the topic's index and add nothing to it. \<open>file_empty_index\<close> is the version line,
  the file header and one such record for topic \<^verbatim>\<open>/a\<close>; \<^verbatim>\<open>open\<close> for reading reads its
  version, file header and index and stops in \<^verbatim>\<open>readDefs\<close>.
\<close>

theorem readDefs_empty_index:
  assumes "topic_indexes b = (tn, []) # rest"
  shows "readDefs b = Inl OutOfRange"
  using assms by (simp add: readDefs_def)

theorem readDefs_empty_index_witness:
  "(\<exists>b. topic_indexes b = [(''/a'', [])] \<and> readDefs b = Inl OutOfRange) \<and>
   Bag_open world_empty_index ''e.bag'' 1 (Bag_new zero_storage) = Inl OutOfRange"
proof -
  let ?F = "file_empty_index"
  define b3 where "b3 = (Bag_new zero_storage)\<lparr>mode := 1, file_name := ''e.bag'',
                          read_stream := \<lparr>i_is_open = True, i_eof = False, i_fail = False,
                                           i_bytes = ?F, i_get = 0\<rparr>\<rparr>"
  have op: "Bag_open world_empty_index ''e.bag'' 1 (Bag_new zero_storage) =
     (case readVersion b3 of
        Inl e \<Rightarrow> Inl e
      | Inr (r1, b4) \<Rightarrow>
          (case readFileHeader b4 of
             Inl e \<Rightarrow> Inl e
           | Inr (r2, b5) \<Rightarrow>
               (case readIndex b5 of
                  Inl e \<Rightarrow> Inl e
                | Inr (r3, b6) \<Rightarrow>
                    (case readDefs b6 of
                       Inl e \<Rightarrow> Inl e
                     | Inr (r4, b7) \<Rightarrow> Inr (True, b7)))))"
    unfolding b3_def
    by (rule Bag_open_read) (simp_all add: world_empty_index_def Bag_new_def)
  have ap3: "at_pos (version_line @ file_header_bytes 4120 @
                     index_record ''/a'' (string_info ''/a'') []) 0 (read_stream b3)"
    by (simp add: b3_def at_pos_def file_empty_index_def)
  define b4 where "b4 = b3\<lparr>read_stream := (read_stream b3)\<lparr>i_get := 16\<rparr>,
                        version_major := 1, version_minor := 2, version := 102\<rparr>"
  have rv: "readVersion b3 = Inr (True, b4)"
    unfolding b4_def by (rule readVersion_ok[OF ap3])
  have ap4: "at_pos ?F 16 (read_stream b4)"
    by (simp add: b4_def b3_def at_pos_def)
  have fh: "bytes_at ?F 16 (file_header_bytes 4120)"
    unfolding file_empty_index_def
    using bytes_at_here[of version_line "file_header_bytes 4120"] by simp
  from readFileHeader_ok[OF ap4 fh] obtain hb hl where
    rf: "readFileHeader b4 = Inr (True, b4\<lparr>read_stream := (read_stream b4)\<lparr>i_get := 16 + 4104\<rparr>,
                        header_buf := hb, header_buf_len := hl, index_data_pos := 4120\<rparr>)"
    by blast
  define b5 where "b5 = b4\<lparr>read_stream := (read_stream b4)\<lparr>i_get := 16 + 4104\<rparr>,
                        header_buf := hb, header_buf_len := hl, index_data_pos := 4120\<rparr>"
  have ap5: "at_pos ?F 4120 (read_stream b5)"
    by (simp add: b5_def b4_def b3_def at_pos_def)
  have ip5: "unat (index_data_pos b5) = 4120" by (simp add: b5_def)
  have ti5: "topic_indexes b5 = []"
    by (simp add: b5_def b4_def b3_def Bag_new_def)
  let ?recs = "[(''/a'', string_info ''/a'', [])]"
  have ir: "bytes_at ?F (unat (index_data_pos b5)) (index_records ?recs)"
    unfolding file_empty_index_def ip5
    using bytes_at_here[of "version_line @ file_header_bytes 4120"
        "index_record ''/a'' (string_info ''/a'') []" "[]"] by simp
  have ie: "unat (index_data_pos b5) + length (index_records ?recs) = length ?F"
    by (simp add: ip5 file_empty_index_def)
  have ok: "\<forall>r\<in>set ?recs. rec_ok r"
    by (simp add: rec_ok_def small_def string_info_def)
  from readIndex_records[OF ap5 ir ie ok] obtain hb' hl' where
    ri: "readIndex b5 = Inr (True, b5\<lparr>read_stream := (read_stream b5)\<lparr>i_get := length ?F\<rparr>,
                        header_buf := hb', header_buf_len := hl',
                        topic_indexes := index_after (topic_indexes b5) ?recs\<rparr>)" by blast
  define b6 where "b6 = b5\<lparr>read_stream := (read_stream b5)\<lparr>i_get := length ?F\<rparr>,
                        header_buf := hb', header_buf_len := hl',
                        topic_indexes := index_after (topic_indexes b5) ?recs\<rparr>"
  have ti6: "topic_indexes b6 = [(''/a'', [])]" by (simp add: b6_def ti5)
  have rd: "readDefs b6 = Inl OutOfRange" by (rule readDefs_empty_index[OF ti6])
  have rf': "readFileHeader b4 = Inr (True, b5)" using rf by (simp add: b5_def)
  have ri': "readIndex b5 = Inr (True, b6)" using ri by (simp add: b6_def)
  have "Bag_open world_empty_index ''e.bag'' 1 (Bag_new zero_storage) = Inl OutOfRange"
    by (simp add: op rv rf' ri' rd)
  with ti6 rd show ?thesis by blast
qed

subsection \<open>The writer: the index and \<^verbatim>\<open>close\<close>\<close>

text \<open>
  \<open>index_record tn mi es\<close> (above) is the record \<^verbatim>\<open>writeIndex\<close> writes for a topic: the header
  with \<^verbatim>\<open>op = OP_INDEX_DATA\<close>, and 16 bytes per entry. \<open>info_of recorded tn\<close> is
  \<^verbatim>\<open>topics_recorded_[tn]\<close>, the empty \<^verbatim>\<open>MsgInfo\<close> when the topic has none.
\<close>

definition no_info :: MsgInfo where
  "no_info = \<lparr>topic = [], msg_def = [], md5sum = [], data_type = []\<rparr>"

definition info_of :: "MsgInfo std_map \<Rightarrow> string \<Rightarrow> MsgInfo" where
  "info_of recorded tn = (case map_of recorded tn of Some mi \<Rightarrow> mi | None \<Rightarrow> no_info)"

definition index_recs ::
  "MsgInfo std_map \<Rightarrow> IndexEntry list std_map \<Rightarrow> (string \<times> MsgInfo \<times> IndexEntry list) list" where
  "index_recs recorded idx = map (\<lambda>(tn, es). (tn, info_of recorded tn, es)) idx"

lemma index_recs_simps [simp]:
  "index_recs recorded [] = []"
  "index_recs recorded ((tn, es) # idx) = (tn, info_of recorded tn, es) # index_recs recorded idx"
  by (simp_all add: index_recs_def)

lemma info_of_assign_no_info:
  "map_of recorded tn = None \<Longrightarrow> info_of (map_assign tn no_info recorded) = info_of recorded"
  by (auto simp: info_of_def fun_eq_iff)

lemma write_index_entries_sticky:
  "o_fail (write_stream b) \<Longrightarrow> o_fail (write_stream (write_index_entries es b))"
  by (induction es arbitrary: b) (simp_all add: writefil_fail_sticky)

lemma write_index_entries_fields [simp]:
  "topic_indexes (write_index_entries es b) = topic_indexes b"
  "topics_recorded (write_index_entries es b) = topics_recorded b"
  "file_header_pos (write_index_entries es b) = file_header_pos b"
  "index_data_pos (write_index_entries es b) = index_data_pos b"
  "indet (write_index_entries es b) = indet b"
  "read_stream (write_index_entries es b) = read_stream b"
  by (induction es arbitrary: b) simp_all

lemma wrote_write_index_entries:
  "appending b \<Longrightarrow> wrote (concat (map entry_bytes es)) b (write_index_entries es b)"
proof (induction es arbitrary: b)
  case Nil
  then show ?case by (simp add: wrote_Nil)
next
  case (Cons e es)
  define b1 where "b1 = writefil (u32_bytes (sec (time e))) b"
  define b2 where "b2 = writefil (u32_bytes (nsec (time e))) b1"
  define b3 where "b3 = writefil (u64_bytes (pos e)) b2"
  have w3: "wrote (u64_bytes (pos e) @ concat (map entry_bytes es)) b2 (write_index_entries es b3)"
    if "appending b2"
  proof (rule wrote_then[OF that])
    show "wrote (u64_bytes (pos e)) b2 b3" unfolding b3_def by (rule wrote_writefil[OF that])
    show "appending b3 \<Longrightarrow> wrote (concat (map entry_bytes es)) b3 (write_index_entries es b3)"
      by (rule Cons.IH)
    show "o_fail (write_stream b3) \<Longrightarrow> o_fail (write_stream (write_index_entries es b3))"
      by (rule write_index_entries_sticky)
  qed
  have st3: "o_fail (write_stream b2) \<Longrightarrow> o_fail (write_stream (write_index_entries es b3))"
    unfolding b3_def by (intro write_index_entries_sticky writefil_fail_sticky)
  have w2: "wrote (u32_bytes (nsec (time e)) @ u64_bytes (pos e) @ concat (map entry_bytes es)) b1
        (write_index_entries es b3)" if "appending b1"
  proof (rule wrote_then[OF that])
    show "wrote (u32_bytes (nsec (time e))) b1 b2" unfolding b2_def by (rule wrote_writefil[OF that])
    show "appending b2 \<Longrightarrow>
      wrote (u64_bytes (pos e) @ concat (map entry_bytes es)) b2 (write_index_entries es b3)"
      by (rule w3)
    show "o_fail (write_stream b2) \<Longrightarrow> o_fail (write_stream (write_index_entries es b3))"
      by (rule st3)
  qed
  have st2: "o_fail (write_stream b1) \<Longrightarrow> o_fail (write_stream (write_index_entries es b3))"
    unfolding b3_def b2_def by (intro write_index_entries_sticky writefil_fail_sticky)
  have w1: "wrote (u32_bytes (sec (time e)) @ u32_bytes (nsec (time e)) @ u64_bytes (pos e) @
                   concat (map entry_bytes es)) b (write_index_entries es b3)"
  proof (rule wrote_then[OF Cons.prems])
    show "wrote (u32_bytes (sec (time e))) b b1"
      unfolding b1_def by (rule wrote_writefil[OF Cons.prems])
    show "appending b1 \<Longrightarrow>
      wrote (u32_bytes (nsec (time e)) @ u64_bytes (pos e) @ concat (map entry_bytes es)) b1
        (write_index_entries es b3)" by (rule w2)
    show "o_fail (write_stream b1) \<Longrightarrow> o_fail (write_stream (write_index_entries es b3))"
      by (rule st2)
  qed
  show ?case
    unfolding concat_entries_Cons using w1 by (simp add: b1_def b2_def b3_def)
qed

lemma writeIndex_loop_sticky:
  "o_fail (write_stream b) \<Longrightarrow> o_fail (write_stream (writeIndex_loop idx b))"
proof (induction idx arbitrary: b)
  case Nil
  then show ?case by simp
next
  case (Cons a idx)
  obtain tn es where a: "a = (tn, es)" by (cases a)
  show ?case
    unfolding a
    apply (simp add: Let_def)
    apply (rule Cons.IH)
    apply (rule write_index_entries_sticky)
    apply (rule writeHeader_sticky)
    using Cons.prems apply (simp split: option.splits)
    done
qed

lemma writeIndex_loop_fields [simp]:
  "topic_indexes (writeIndex_loop idx b) = topic_indexes b"
  "file_header_pos (writeIndex_loop idx b) = file_header_pos b"
  "index_data_pos (writeIndex_loop idx b) = index_data_pos b"
  "indet (writeIndex_loop idx b) = indet b"
  "read_stream (writeIndex_loop idx b) = read_stream b"
proof (induction idx arbitrary: b)
  case Nil
  {
    case 1 show ?case by simp
  next
    case 2 show ?case by simp
  next
    case 3 show ?case by simp
  next
    case 4 show ?case by simp
  next
    case 5 show ?case by simp
  }
next
  case (Cons a idx)
  obtain tn es where a: "a = (tn, es)" by (cases a)
  {
    case 1 show ?case unfolding a by (simp add: Let_def Cons.IH split: option.splits)
  next
    case 2 show ?case unfolding a by (simp add: Let_def Cons.IH split: option.splits)
  next
    case 3 show ?case unfolding a by (simp add: Let_def Cons.IH split: option.splits)
  next
    case 4 show ?case unfolding a by (simp add: Let_def Cons.IH split: option.splits)
  next
    case 5 show ?case unfolding a by (simp add: Let_def Cons.IH split: option.splits)
  }
qed

text \<open>\<^verbatim>\<open>writeIndex\<close>'s loop appends one index record per topic, in the map's order.\<close>

lemma wrote_writeIndex_loop:
  "appending b \<Longrightarrow>
     wrote (index_records (index_recs (topics_recorded b) idx)) b (writeIndex_loop idx b)"
proof (induction idx arbitrary: b)
  case Nil
  then show ?case by (simp add: wrote_Nil)
next
  case (Cons a idx)
  obtain tn es where a: "a = (tn, es)" by (cases a)
  define b1 where "b1 = (case map_of (topics_recorded b) tn of
                  Some mi \<Rightarrow> b
                | None \<Rightarrow> b\<lparr>topics_recorded := map_assign tn no_info (topics_recorded b)\<rparr>)"
  define mi where "mi = info_of (topics_recorded b) tn"
  have mi1: "(case map_of (topics_recorded b1) tn of Some mi \<Rightarrow> mi | None \<Rightarrow> no_info) = mi"
    by (simp add: b1_def mi_def info_of_def split: option.splits)
  have io: "info_of (topics_recorded b1) = info_of (topics_recorded b)"
    by (simp add: b1_def info_of_assign_no_info split: option.splits)
  have ws1: "write_stream b1 = write_stream b" "record_pos b1 = record_pos b"
    by (simp_all add: b1_def split: option.splits)
  have a1: "appending b1" using Cons.prems ws1 by (rule appending_cong)
  define cnt :: "32 word" where "cnt = word_of_nat (length es)"
  define b2 where "b2 = writeHeader (index_header tn mi cnt) (cnt * 16) b1"
  define b3 where "b3 = write_index_entries es b2"
  have tr3: "topics_recorded b3 = topics_recorded b1" by (simp add: b3_def b2_def)
  have step: "writeIndex_loop (a # idx) b = writeIndex_loop idx b3"
    unfolding a
    apply (simp only: writeIndex_loop.simps Let_def no_info_def[symmetric])
    apply (simp only: b1_def[symmetric])
    apply (simp only: mi1 cnt_def[symmetric])
    apply (simp only: b2_def[symmetric] b3_def[symmetric])
    done
  have w23: "wrote (header_bytes (index_header tn mi cnt) (cnt * 16) @
                    concat (map entry_bytes es)) b1 b3"
  proof (rule wrote_then[OF a1])
    show "wrote (header_bytes (index_header tn mi cnt) (cnt * 16)) b1 b2"
      unfolding b2_def by (rule wrote_writeHeader[OF a1])
    show "appending b2 \<Longrightarrow> wrote (concat (map entry_bytes es)) b2 b3"
      unfolding b3_def by (rule wrote_write_index_entries)
    show "o_fail (write_stream b2) \<Longrightarrow> o_fail (write_stream b3)"
      unfolding b3_def by (rule write_index_entries_sticky)
  qed
  have ih: "appending b3 \<Longrightarrow>
      wrote (index_records (index_recs (topics_recorded b) idx)) b3 (writeIndex_loop idx b3)"
    using Cons.IH[of b3] by (simp add: tr3 index_recs_def io)
  have "wrote ((header_bytes (index_header tn mi cnt) (cnt * 16) @
                    concat (map entry_bytes es)) @
               index_records (index_recs (topics_recorded b) idx)) b1 (writeIndex_loop idx b3)"
    by (rule wrote_then[OF a1 w23 ih writeIndex_loop_sticky])
  then have "wrote (index_records (index_recs (topics_recorded b) (a # idx))) b1
               (writeIndex_loop idx b3)"
    by (simp add: a index_record_def mi_def cnt_def)
  then show ?case
    unfolding step using ws1[symmetric] by (rule wrote_cong)
qed

lemma put_at_inside:
  "p + length s \<le> length A \<Longrightarrow> put_at p s (A @ B) = take p A @ s @ drop (p + length s) A @ B"
  by (simp add: put_at_def)

lemma seek_sticky: "o_fail (write_stream b) \<Longrightarrow> o_fail (write_stream (seek p b))"
  by (simp add: seek_def ofstream_seekp_def)

lemma writeIndex_sticky: "o_fail (write_stream b) \<Longrightarrow> o_fail (write_stream (writeIndex b))"
  unfolding writeIndex_def Let_def
  by (intro writeFileHeader_sticky seek_sticky writeIndex_loop_sticky) simp

lemma Bag_close_sticky: "o_fail (write_stream b) \<Longrightarrow> o_fail (write_stream (Bag_close b))"
  using writeIndex_sticky[of b]
  by (simp add: Bag_close_def Let_def ofstream_close_def)

text \<open>The file after \<^verbatim>\<open>close\<close>: the index records after what was written, and the file
  header written again in its place, with \<open>index_pos\<close> the \<open>record_pos\<close> at which the index
  starts.\<close>

definition index_of_bag :: "Bag \<Rightarrow> string" where
  "index_of_bag b = index_records (index_recs (topics_recorded b) (topic_indexes b))"

definition closed_bytes :: "Bag \<Rightarrow> string" where
  "closed_bytes b =
     put_at (unat (file_header_pos b)) (file_header_bytes (record_pos b))
       (o_bytes (write_stream b) @ index_of_bag b)"

lemma Bag_close_room:
  assumes a: "appending b"
    and fh: "unat (file_header_pos b) + 4104 \<le> length (o_bytes (write_stream b))"
    and hr: "has_room (length (index_of_bag b)) b"
  shows "o_bytes (write_stream (Bag_close b)) = closed_bytes b"
    and "\<not> o_is_open (write_stream (Bag_close b))"
    and "\<not> o_fail (write_stream (Bag_close b))"
proof -
  define IB where "IB = index_of_bag b"
  define F0 where "F0 = o_bytes (write_stream b)"
  define bi where "bi = b\<lparr>index_data_pos := record_pos b\<rparr>"
  define b2 where "b2 = writeIndex_loop (topic_indexes bi) bi"
  define b3 where "b3 = seek (file_header_pos b2) b2"
  define b4 where "b4 = writeFileHeader b3"
  have op: "o_is_open (write_stream b)" using a by (simp add: appending_def)
  have wi: "writeIndex b = b4"
    by (simp add: writeIndex_def Let_def b4_def b3_def b2_def bi_def)
  have ai: "appending bi" using a by (simp add: appending_def bi_def)
  have w: "wrote IB bi b2"
    using wrote_writeIndex_loop[OF ai, of "topic_indexes bi"]
    by (simp add: b2_def IB_def index_of_bag_def bi_def)
  have hr': "has_room (length IB) bi" using hr by (simp add: has_room_def bi_def IB_def)
  note p = wrote_appending[OF ai w hr']
  have by2: "o_bytes (write_stream b2) = F0 @ IB" using p(2) by (simp add: bi_def F0_def)
  have a2: "appending b2" by (rule p(1))
  have fh2: "file_header_pos b2 = file_header_pos b" by (simp add: b2_def bi_def)
  have ws3: "write_stream b3 = (write_stream b2)\<lparr>o_put := unat (file_header_pos b)\<rparr>"
    using a2 by (simp add: b3_def seek_def ofstream_seekp_def appending_def fh2)
  have cp: "can_put 4104 b3"
    using a2 fh by (simp add: can_put_def ws3 appending_def by2 F0_def)
  have id3: "index_data_pos b3 = record_pos b"
    by (simp add: b3_def seek_def b2_def bi_def)
  from overwrote_writeFileHeader[OF cp]
  have ow: "overwrote (file_header_bytes (record_pos b)) b3 b4" by (simp add: b4_def id3)
  have ws4: "o_bytes (write_stream b4) =
      put_at (unat (file_header_pos b)) (file_header_bytes (record_pos b)) (F0 @ IB)"
    and op4: "o_is_open (write_stream b4)" and nf4: "\<not> o_fail (write_stream b4)"
    using ow a2 by (simp_all add: overwrote_def ws3 by2 appending_def)
  show "o_bytes (write_stream (Bag_close b)) = closed_bytes b"
    using op op4 ws4
    by (simp add: Bag_close_def Let_def wi ofstream_close_def closed_bytes_def IB_def F0_def)
  show "\<not> o_is_open (write_stream (Bag_close b))"
    using op op4 by (simp add: Bag_close_def Let_def wi ofstream_close_def)
  show "\<not> o_fail (write_stream (Bag_close b))"
    using op op4 nf4 by (simp add: Bag_close_def Let_def wi ofstream_close_def)
qed

lemma Bag_close_needs_room:
  assumes a: "appending b" and nf: "\<not> o_fail (write_stream (Bag_close b))"
  shows "has_room (length (index_of_bag b)) b"
proof (rule ccontr)
  assume n: "\<not> has_room (length (index_of_bag b)) b"
  define bi where "bi = b\<lparr>index_data_pos := record_pos b\<rparr>"
  define b2 where "b2 = writeIndex_loop (topic_indexes bi) bi"
  have op: "o_is_open (write_stream b)" using a by (simp add: appending_def)
  have ai: "appending bi" using a by (simp add: appending_def bi_def)
  have w: "wrote (index_of_bag b) bi b2"
    using wrote_writeIndex_loop[OF ai, of "topic_indexes bi"]
    by (simp add: b2_def index_of_bag_def bi_def)
  have "\<not> has_room (length (index_of_bag b)) bi" using n by (simp add: has_room_def bi_def)
  then have "o_fail (write_stream b2)" using w by (simp add: wrote_def)
  then have "o_fail (write_stream (Bag_close b))"
    using op
    by (simp add: Bag_close_def Let_def writeIndex_def b2_def bi_def writeFileHeader_sticky
        seek_sticky ofstream_close_def)
  with nf show False by simp
qed

lemma Bag_close_bytes:
  assumes a: "appending b"
    and fh: "unat (file_header_pos b) + 4104 \<le> length (o_bytes (write_stream b))"
    and nf: "\<not> o_fail (write_stream (Bag_close b))"
  shows "o_bytes (write_stream (Bag_close b)) = closed_bytes b"
    and "\<not> o_is_open (write_stream (Bag_close b))"
    and "has_room (length (index_of_bag b)) b"
  using Bag_close_room[OF a fh Bag_close_needs_room[OF a nf]] Bag_close_needs_room[OF a nf]
  by simp_all

lemma closed_bytes_eq:
  assumes "unat (file_header_pos b) + 4104 \<le> length (o_bytes (write_stream b))"
  shows "closed_bytes b =
     take (unat (file_header_pos b)) (o_bytes (write_stream b)) @
     file_header_bytes (record_pos b) @
     drop (unat (file_header_pos b) + 4104) (o_bytes (write_stream b)) @ index_of_bag b"
  using assms by (simp add: closed_bytes_def put_at_inside)

text \<open>The calls of a recording: \<^verbatim>\<open>write\<close> for every message of a list, each with the world
  (clock, disk) it finds.\<close>

fun write_all :: "(World \<times> string \<times> Time \<times> Message) list \<Rightarrow> Bag \<Rightarrow> error + Bag" where
  "write_all [] b = Inr b"
| "write_all ((w, topic_name, t, msg) # ms) b =
     (case Bag_write w topic_name t msg b of
        Inl e \<Rightarrow> Inl e
      | Inr b' \<Rightarrow> write_all ms b')"

lemma Bag_write_disabled:
  "\<not> writing_enabled b \<Longrightarrow> Bag_write w tn t m b = Inr b' \<Longrightarrow>
     write_stream b' = write_stream b \<and> record_pos b' = record_pos b \<and>
     file_header_pos b' = file_header_pos b \<and> topic_indexes b' = topic_indexes b \<and>
     topics_recorded b' = topics_recorded b \<and> index_data_pos b' = index_data_pos b \<and>
     \<not> writing_enabled b'"
  by (auto simp add: Bag_write_def Let_def split: if_splits)

lemma Bag_write_sticky:
  assumes "Bag_write w tn t m b = Inr b'" "o_fail (write_stream b)"
  shows "o_fail (write_stream b')"
proof (cases "writing_enabled b")
  case True
  from Bag_write_Inr(2)[OF True assms(1) assms(2)] show ?thesis .
next
  case False
  from Bag_write_disabled[OF False assms(1)] assms(2) show ?thesis by simp
qed

lemma write_all_sticky:
  "write_all ms b = Inr b' \<Longrightarrow> o_fail (write_stream b) \<Longrightarrow> o_fail (write_stream b')"
proof (induction ms arbitrary: b)
  case Nil
  then show ?case by simp
next
  case (Cons a ms)
  obtain w tn t m where a: "a = (w, tn, t, m)" by (cases a)
  from Cons.prems(1) a obtain b1 where s: "Bag_write w tn t m b = Inr b1"
    and r: "write_all ms b1 = Inr b'"
    by (auto split: sum.splits)
  from Cons.IH[OF r Bag_write_sticky[OF s Cons.prems(2)]] show ?case .
qed

text \<open>One call on a healthy stream that is healthy afterwards: the bytes went to the end
  of the file.\<close>

lemma Bag_write_appends:
  assumes s: "Bag_write w tn t m b = Inr b'" and a: "appending b"
    and nf: "\<not> o_fail (write_stream b')"
  shows "appending b'"
    and "file_header_pos b' = file_header_pos b"
    and "o_bytes (write_stream b') =
           o_bytes (write_stream b) @ (if writing_enabled b then write_bytes tn t m b else [])"
proof -
  have "appending b' \<and> file_header_pos b' = file_header_pos b \<and>
        o_bytes (write_stream b') =
           o_bytes (write_stream b) @ (if writing_enabled b then write_bytes tn t m b else [])"
  proof (cases "writing_enabled b")
    case True
    note r = Bag_write_Inr[OF True s]
    have w: "wrote (write_bytes tn t m b) b b'" by (rule r(1)[OF a])
    have hr: "has_room (length (write_bytes tn t m b)) b"
      using w nf by (auto simp: wrote_def split: if_splits)
    note p = wrote_appending[OF a w hr]
    show ?thesis using p(1,2) r(6) True by simp
  next
    case False
    from Bag_write_disabled[OF False s] a show ?thesis
      using False by (simp add: appending_def)
  qed
  then show "appending b'" "file_header_pos b' = file_header_pos b"
    "o_bytes (write_stream b') =
           o_bytes (write_stream b) @ (if writing_enabled b then write_bytes tn t m b else [])"
    by simp_all
qed

lemma write_all_appends:
  "write_all ms b = Inr b' \<Longrightarrow> appending b \<Longrightarrow> \<not> o_fail (write_stream b') \<Longrightarrow>
     appending b' \<and> file_header_pos b' = file_header_pos b \<and>
     (\<exists>s. o_bytes (write_stream b') = o_bytes (write_stream b) @ s)"
proof (induction ms arbitrary: b)
  case Nil
  then show ?case by simp
next
  case (Cons a ms)
  obtain w tn t m where a: "a = (w, tn, t, m)" by (cases a)
  from Cons.prems(1) a obtain b1 where s: "Bag_write w tn t m b = Inr b1"
    and r: "write_all ms b1 = Inr b'"
    by (auto split: sum.splits)
  have nf1: "\<not> o_fail (write_stream b1)"
    using write_all_sticky[OF r] Cons.prems(3) by blast
  note p = Bag_write_appends[OF s Cons.prems(2) nf1]
  from Cons.IH[OF r p(1) Cons.prems(3)] p(2,3) show ?case by auto
qed

lemma Bag_open_write_cases:
  assumes cr: "fs_creatable w name" and rm: "fs_room w < 2 ^ 64"
    and op: "Bag_open w name 2 (Bag_new raw) = Inr (r, b0)"
    and nf: "\<not> o_fail (write_stream b0)"
  shows "appending b0" "o_bytes (write_stream b0) = version_line @ file_header_bytes 0"
    "file_header_pos b0 = 16" "topics_recorded b0 = []" "topic_indexes b0 = []"
    "indet b0 = indet raw" "disk_ok w \<Longrightarrow> writing_enabled b0" "r"
  using Bag_open_write[OF cr _ rm, of "Bag_new raw"] op nf
  by (auto split: if_splits)

subsection \<open>C4: \<open>index_pos\<close> in the file header after \<^verbatim>\<open>close\<close>\<close>

text \<open>
  C4. A bag is opened for writing, receives the messages \<open>ms\<close> and is closed, and the stream
  has not failed. Then the file is the version line, the file header written again with
  \<open>index_pos = record_pos\<close> (the writer's position when \<^verbatim>\<open>close\<close> was called, which is the
  length of the file then), the records of the messages as they were, and the index
  records, which therefore start at offset \<open>record_pos\<close>: the first of them, an
  \<^verbatim>\<open>OP_INDEX_DATA\<close> record, is at the offset the header names. \<^verbatim>\<open>readFileHeader\<close> on that file
  gets this offset as \<^verbatim>\<open>index_data_pos_\<close>.
\<close>

theorem close_index_pos:
  assumes cr: "fs_creatable w name" and rm: "fs_room w < 2 ^ 64"
    and op: "Bag_open w name 2 (Bag_new raw) = Inr (True, b0)"
    and wr: "write_all ms b0 = Inr b"
    and nf: "\<not> o_fail (write_stream (Bag_close b))"
  shows "4120 \<le> length (o_bytes (write_stream b)) \<and>
         unat (record_pos b) = length (o_bytes (write_stream b)) \<and>
         o_bytes (write_stream (Bag_close b)) =
           version_line @ file_header_bytes (record_pos b) @
           drop 4120 (o_bytes (write_stream b)) @ index_of_bag b \<and>
         bytes_at (o_bytes (write_stream (Bag_close b))) 16 (file_header_bytes (record_pos b)) \<and>
         bytes_at (o_bytes (write_stream (Bag_close b))) (unat (record_pos b)) (index_of_bag b) \<and>
         (\<forall>br. at_pos (o_bytes (write_stream (Bag_close b))) 16 (read_stream br) \<longrightarrow>
            (\<exists>br'. readFileHeader br = Inr (True, br') \<and> index_data_pos br' = record_pos b))"
proof -
  define F0 where "F0 = o_bytes (write_stream b)"
  define F' where "F' = o_bytes (write_stream (Bag_close b))"
  define P where "P = record_pos b"
  have nfb: "\<not> o_fail (write_stream b)" using Bag_close_sticky[of b] nf by blast
  have nf0: "\<not> o_fail (write_stream b0)" using write_all_sticky[OF wr] nfb by blast
  note o = Bag_open_write_cases[OF cr rm op nf0]
  from write_all_appends[OF wr o(1) nfb] obtain s where
    a: "appending b" and fh: "file_header_pos b = 16"
    and bs: "F0 = (version_line @ file_header_bytes 0) @ s"
    by (auto simp: o(2,3) F0_def)
  have l: "4120 \<le> length F0" by (simp add: bs)
  have u: "unat P = length F0" using a by (simp add: appending_def P_def F0_def)
  have fh': "unat (file_header_pos b) + 4104 \<le> length (o_bytes (write_stream b))"
    using l by (simp add: fh F0_def)
  note c = Bag_close_bytes[OF a fh' nf]
  have t16: "take 16 F0 = version_line" by (simp add: bs)
  have F: "F' = version_line @ file_header_bytes P @ drop 4120 F0 @ index_of_bag b"
    using c(1) closed_bytes_eq[OF fh'] by (simp add: F'_def fh F0_def[symmetric] t16 P_def)
  have b1: "bytes_at F' 16 (file_header_bytes P)"
    unfolding F using bytes_at_here[of version_line "file_header_bytes P"] by simp
  have "bytes_at F' (length (version_line @ file_header_bytes P @ drop 4120 F0))
          (index_of_bag b)"
    unfolding F
    using bytes_at_here[of "version_line @ file_header_bytes P @ drop 4120 F0"
        "index_of_bag b" "[]"] by simp
  then have b2: "bytes_at F' (unat P) (index_of_bag b)" using l by (simp add: u)
  have rd: "\<exists>br'. readFileHeader br = Inr (True, br') \<and> index_data_pos br' = P"
    if "at_pos F' 16 (read_stream br)" for br
    using readFileHeader_ok[OF that b1] by auto
  show ?thesis
    using l u F b1 b2 rd unfolding F0_def F'_def P_def by blast
qed


lemma string_msg_info: "new_info tn (string_msg p) = string_info tn"
  by (simp add: new_info_def string_msg_def string_info_def)

theorem close_index_pos_witness:
  "\<exists>b0 b. Bag_open (world_disk 1000000) ''a.bag'' 2 (Bag_new zero_storage) = Inr (True, b0) \<and>
     write_all [(world_disk 1000000, ''/chatter'', at_sec 7, string_msg ''hello'')] b0 = Inr b \<and>
     \<not> o_fail (write_stream (Bag_close b)) \<and>
     topic_indexes b = [(''/chatter'', [\<lparr>time = at_sec 7, pos = 4120\<rparr>])] \<and>
     bytes_at (o_bytes (write_stream (Bag_close b))) 16 (file_header_bytes (record_pos b)) \<and>
     bytes_at (o_bytes (write_stream (Bag_close b))) (unat (record_pos b))
       (index_record ''/chatter'' (string_info ''/chatter'') [\<lparr>time = at_sec 7, pos = 4120\<rparr>])"
proof -
  let ?w = "world_disk 1000000"
  let ?m = "string_msg ''hello''"
  have cr: "fs_creatable ?w ''a.bag''" and rm: "fs_room ?w < 2 ^ 64" by simp_all
  obtain b0 where op: "Bag_open ?w ''a.bag'' 2 (Bag_new zero_storage) = Inr (True, b0)"
    and a0: "appending b0"
    and bs0: "o_bytes (write_stream b0) = version_line @ file_header_bytes 0"
    and rm0: "o_room (write_stream b0) = 1000000"
    and fh0: "file_header_pos b0 = 16"
    and tr0: "topics_recorded b0 = []" and ti0: "topic_indexes b0 = []"
    and en0: "writing_enabled b0"
    using Bag_open_write[of ?w "''a.bag''" "Bag_new zero_storage"] by auto
  have sm: "length (serialized ?m) \<le> 2 ^ 31" by (simp add: string_msg_def)
  obtain b where w1: "Bag_write ?w ''/chatter'' (at_sec 7) ?m b0 = Inr b"
    using Bag_write_small[OF en0 sm] by blast
  have wa: "write_all [(?w, ''/chatter'', at_sec 7, ?m)] b0 = Inr b" by (simp add: w1)
  note r = Bag_write_Inr[OF en0 w1]
  have len: "length (write_bytes ''/chatter'' (at_sec 7) ?m b0) \<le> 1000"
    by (rule length_write_bytes_hello) (simp add: tr0)
  have hr: "has_room (length (write_bytes ''/chatter'' (at_sec 7) ?m b0)) b0"
    using len by (simp add: has_room_def bs0 rm0)
  note p = wrote_appending[OF a0 r(1)[OF a0] hr]
  have p0: "record_pos b0 = 4120"
    using a0 by (simp add: appending_def bs0 word_unat_eq_iff)
  have ti: "topic_indexes b = [(''/chatter'', [\<lparr>time = at_sec 7, pos = 4120\<rparr>])]"
    by (simp add: r(5) tr0 ti0 index_for_def p0)
  have tr: "topics_recorded b = [(''/chatter'', string_info ''/chatter'')]"
    by (simp add: r(4) tr0 string_msg_info)
  have ib: "index_of_bag b =
      index_record ''/chatter'' (string_info ''/chatter'') [\<lparr>time = at_sec 7, pos = 4120\<rparr>]"
    by (simp add: index_of_bag_def ti tr info_of_def)
  have lib: "length (index_of_bag b) \<le> 1000"
    unfolding ib index_record_def
    apply simp
    apply (rule order_trans[OF length_header_bytes_le])
    apply (simp add: index_header_eq string_info_def)
    done
  have fhb: "unat (file_header_pos b) + 4104 \<le> length (o_bytes (write_stream b))"
    by (simp add: r(6) fh0 p(2) bs0)
  have hrb: "has_room (length (index_of_bag b)) b"
    using lib len by (simp add: has_room_def p(2,3) bs0 rm0)
  note c = Bag_close_room[OF p(1) fhb hrb]
  from close_index_pos[OF cr rm op wa c(3)] op wa c(3) ti show ?thesis
    by (auto simp add: ib)
qed

end
